theory Spec2Isabelle
  imports Complex_Main "HOL-Library.Word"
begin

section \<open>Values of the program\<close>

text \<open>
  The game is a JavaScript program, so a variable may hold values of several kinds.
  \<open>jsval\<close> lists the kinds that flow through the functions modelled here:
  \<open>null\<close>, \<open>undefined\<close>, \<open>NaN\<close>, an integral number, and the one string that is
  ever returned as a value, \<open>'?'\<close> (the help request of \<open>getUserNumber\<close>).
  Numbers are modelled as unbounded integers: every number the game computes from
  face values and ranges is an integer, and the model is exact as long as the
  magnitudes stay below \<open>2^53\<close>.
\<close>

datatype jsval = JNull | JUndefined | JNaN | JNum int | JQuestion

text \<open>\<open>ToNumber\<close> on these values; \<open>None\<close> is \<open>NaN\<close>.\<close>

fun to_number :: "jsval \<Rightarrow> int option" where
  "to_number JNull = Some 0"
| "to_number JUndefined = None"
| "to_number JNaN = None"
| "to_number (JNum n) = Some n"
| "to_number JQuestion = None"

text \<open>The relational operator \<open>a > b\<close>: false as soon as one side is \<open>NaN\<close>.\<close>

definition js_gt :: "jsval \<Rightarrow> jsval \<Rightarrow> bool" where
  "js_gt a b = (case (to_number a, to_number b) of
                  (Some x, Some y) \<Rightarrow> x > y
                | _ \<Rightarrow> False)"

text \<open>
  The remainder operator \<open>a % b\<close> on integral numbers, for a divisor \<open>b \<noteq> 0\<close>: the
  result takes the sign of the dividend. Every divisor below is a range width that
  has been checked to be at least 1 before.
\<close>

definition js_rem :: "int \<Rightarrow> int \<Rightarrow> int" where
  "js_rem a b = sgn a * (\<bar>a\<bar> mod \<bar>b\<bar>)"

text \<open>
  The division \<open>wins / total\<close> of two counters. The quotient is kept as an exact
  rational; \<open>None\<close> stands for the non-finite results of a division by zero
  (\<open>0 / 0\<close> is \<open>NaN\<close>).
\<close>

definition js_divide :: "nat \<Rightarrow> nat \<Rightarrow> rat option" where
  "js_divide wins tot = (if tot = 0 then None else Some (of_nat wins / of_nat tot))"

section \<open>Dice model\<close>

text \<open>Class \<open>Dice\<close>: the face values and the position of the die in the game.\<close>

record dice =
  faces :: "int list"
  index :: nat

definition mkDice :: "int list \<Rightarrow> nat \<Rightarrow> dice" where
  "mkDice fs i = \<lparr>faces = fs, index = i\<rparr>"

definition getFaceCount :: "dice \<Rightarrow> nat" where
  "getFaceCount d = length (faces d)"

text \<open>
  \<open>getValue(faceIndex)\<close> is the property read \<open>this.faces[faceIndex]\<close>. An array has
  an element only at the indices \<open>0 .. length - 1\<close>; reading it at any other number,
  at \<open>NaN\<close>, \<open>null\<close>, \<open>undefined\<close> or \<open>'?'\<close> yields \<open>undefined\<close> and raises nothing.
\<close>

fun getValue :: "dice \<Rightarrow> jsval \<Rightarrow> jsval" where
  "getValue d (JNum i) =
     (if 0 \<le> i \<and> i < int (length (faces d)) then JNum (faces d ! nat i) else JUndefined)"
| "getValue d JNaN = JUndefined"
| "getValue d JNull = JUndefined"
| "getValue d JUndefined = JUndefined"
| "getValue d JQuestion = JUndefined"

section \<open>Probability engine\<close>

text \<open>
  \<open>calculatePairProbability\<close> runs two nested loops over the faces and keeps the
  counters \<open>wins\<close> and \<open>total\<close>; the loops are the two folds below.
\<close>

definition count_face :: "int \<Rightarrow> nat \<times> nat \<Rightarrow> int \<Rightarrow> nat \<times> nat" where
  "count_face face1 acc face2 =
     (case acc of (wins, tot) \<Rightarrow> (if face1 > face2 then wins + 1 else wins, tot + 1))"

definition count_pairs :: "int list \<Rightarrow> int list \<Rightarrow> nat \<times> nat" where
  "count_pairs fs1 fs2 = foldl (\<lambda>acc face1. foldl (count_face face1) acc fs2) (0, 0) fs1"

definition calculatePairProbability :: "dice \<Rightarrow> dice \<Rightarrow> rat option" where
  "calculatePairProbability dice1 dice2 =
     (case count_pairs (faces dice1) (faces dice2) of (wins, tot) \<Rightarrow> js_divide wins tot)"

definition calculateWinProbabilities :: "dice list \<Rightarrow> rat option list list" where
  "calculateWinProbabilities ds =
     (let n = length ds in
      map (\<lambda>i. map (\<lambda>j. if i = j then Some (1 / 2)
                         else calculatePairProbability (ds ! i) (ds ! j)) [0..<n]) [0..<n])"

text \<open>
  The specification's formula, written from its words: the number of face pairs of
  the full Cartesian product in which the first face is strictly greater.
\<close>

definition winning_pairs :: "int list \<Rightarrow> int list \<Rightarrow> nat" where
  "winning_pairs fs1 fs2 = length (filter (\<lambda>(a, b). a > b) (List.product fs1 fs2))"

section \<open>Strings\<close>

text \<open>
  Strings are lists of 8-bit characters. Within that range the white space that
  \<open>trim\<close> and \<open>parseInt\<close> skip is TAB, LF, VT, FF, CR, SPACE and NBSP.
\<close>

definition is_space :: "char \<Rightarrow> bool" where
  "is_space c = (of_char c \<in> {9, 10, 11, 12, 13, 32, 160 :: nat})"

definition trim :: "string \<Rightarrow> string" where
  "trim s = rev (dropWhile is_space (rev (dropWhile is_space s)))"

text \<open>\<open>str.split(',')\<close>: the pieces between the commas; never an empty array.\<close>

fun split_comma :: "string \<Rightarrow> string list" where
  "split_comma [] = [[]]"
| "split_comma (c # cs) =
     (if c = CHR '','' then [] # split_comma cs
      else (case split_comma cs of
              [] \<Rightarrow> [[c]]
            | t # ts \<Rightarrow> (c # t) # ts))"

text \<open>The value of a character as a digit in the given radix (10 or 16).\<close>

definition digit_of :: "nat \<Rightarrow> char \<Rightarrow> nat option" where
  "digit_of radix c =
     (let n = of_char c :: nat;
          v = (if 48 \<le> n \<and> n \<le> 57 then Some (n - 48)
               else if 97 \<le> n \<and> n \<le> 122 then Some (n - 87)
               else if 65 \<le> n \<and> n \<le> 90 then Some (n - 55)
               else None)
      in case v of
           None \<Rightarrow> None
         | Some d \<Rightarrow> if d < radix then Some d else None)"

definition digits_value :: "nat \<Rightarrow> string \<Rightarrow> nat" where
  "digits_value radix ds =
     foldl (\<lambda>a c. a * radix + (case digit_of radix c of Some d \<Rightarrow> d | None \<Rightarrow> 0)) 0 ds"

text \<open>
  \<open>parseInt(s)\<close> with no radix argument: skip leading white space, read an optional
  sign, switch to radix 16 after a \<open>0x\<close> or \<open>0X\<close> prefix, and convert the longest
  prefix of digits; whatever follows the digits is ignored. The result is \<open>NaN\<close>
  (\<open>None\<close>) exactly when there is no digit to convert.
\<close>

definition parseInt :: "string \<Rightarrow> int option" where
  "parseInt s =
     (let s1 = dropWhile is_space s;
          negative = (case s1 of c # _ \<Rightarrow> c = CHR ''-'' | [] \<Rightarrow> False);
          s2 = (case s1 of c # r \<Rightarrow> if c = CHR ''-'' \<or> c = CHR ''+'' then r else s1 | [] \<Rightarrow> s1);
          hex = (take 2 s2 = ''0x'' \<or> take 2 s2 = ''0X'');
          radix = (if hex then 16 else 10);
          s3 = (if hex then drop 2 s2 else s2);
          ds = takeWhile (\<lambda>c. digit_of radix c \<noteq> None) s3
      in if ds = [] then None
         else Some ((if negative then - 1 else 1) * int (digits_value radix ds)))"

text \<open>The decimal numeral of a natural number, as a user types it, and its characters.\<close>

definition is_digit :: "char \<Rightarrow> bool" where
  "is_digit c = (48 \<le> (of_char c :: nat) \<and> (of_char c :: nat) \<le> 57)"


fun decimal :: "nat \<Rightarrow> string" where
  "decimal n = (if n < 10 then [char_of (48 + n)]
                else decimal (n div 10) @ [char_of (48 + n mod 10)])"

declare decimal.simps [simp del]

text \<open>\<open>choice.toUpperCase() === 'X'\<close> holds for the two strings \<open>X\<close> and \<open>x\<close> only.\<close>

definition is_exit :: "string \<Rightarrow> bool" where
  "is_exit choice = (choice = ''X'' \<or> choice = ''x'')"

section \<open>Command line arguments\<close>

text \<open>
  The errors thrown while the arguments are validated, one constructor for each
  message: \<open>All face values must be integers\<close>, \<open>Each dice must have exactly 6
  faces, got n\<close>, \<open>At least 3 dice configurations required, got n\<close>, and the wrapper
  \<open>Error in dice i: ...\<close>.
\<close>

datatype arg_error =
    NotInteger
  | FaceCount nat
  | TooFewDice nat
  | InDice nat arg_error

text \<open>The \<open>map\<close> callback of \<open>parseDiceConfig\<close> throws at the first token that is \<open>NaN\<close>.\<close>

fun parse_faces :: "string list \<Rightarrow> arg_error + int list" where
  "parse_faces [] = Inr []"
| "parse_faces (x # xs) =
     (case parseInt (trim x) of
        None \<Rightarrow> Inl NotInteger
      | Some num \<Rightarrow> (case parse_faces xs of
                      Inl err \<Rightarrow> Inl err
                    | Inr nums \<Rightarrow> Inr (num # nums)))"

definition parseDiceConfig :: "string \<Rightarrow> arg_error + int list" where
  "parseDiceConfig configStr =
     (case parse_faces (split_comma configStr) of
        Inl err \<Rightarrow> Inl err
      | Inr vals \<Rightarrow> if length vals \<noteq> 6 then Inl (FaceCount (length vals)) else Inr vals)"

text \<open>The loop of \<open>validateArguments\<close>, started at position \<open>i\<close>.\<close>

fun validate_from :: "nat \<Rightarrow> string list \<Rightarrow> arg_error + int list list" where
  "validate_from i [] = Inr []"
| "validate_from i (a # as) =
     (case parseDiceConfig a of
        Inl err \<Rightarrow> Inl (InDice (i + 1) err)
      | Inr config \<Rightarrow> (case validate_from (i + 1) as of
                        Inl err \<Rightarrow> Inl err
                      | Inr configs \<Rightarrow> Inr (config # configs)))"

definition validateArguments :: "string list \<Rightarrow> arg_error + int list list" where
  "validateArguments args =
     (if length args < 3 then Inl (TooFewDice (length args)) else validate_from 0 args)"

section \<open>The environment of a game\<close>

text \<open>
  Everything a run depends on from outside is kept in one state that the functions
  pass along: the lines the user will type, the bytes that \<open>crypto.randomBytes\<close>
  will deliver, and the messages printed so far. The messages are recorded as
  events, one for each \<open>console.log\<close> (or group of them) of the source; the HMAC
  digest itself is not computed.
\<close>

type_synonym byte = "8 word"

datatype event =
    Generating string
  | Committed int int
  | NumberMenu int int
  | InvalidNumber int int
  | Revealed int "byte list"
  | FairResult int jsval jsval int
  | FirstMoveIntro
  | ProbabilityTable "rat option list list"
  | ComputerChose "int list"
  | DiceMenu int
  | UserChose "int list"
  | InvalidDice
  | RollIntro string
  | RollResult string jsval
  | IWin jsval jsval
  | YouWin jsval jsval
  | Tie jsval jsval

record env =
  lines :: "string list"
  entropy :: "byte list"
  out :: "event list"

text \<open>
  What stops a function without a result: the random source has no bytes left
  (\<open>crypto.randomBytes\<close> throws), it is asked for a size that is not a natural
  number, a property of \<open>undefined\<close> is read, or the program is waiting at a prompt
  for a line that never comes.
\<close>

datatype fault = EntropyUnavailable | BadSize | TypeError | AwaitingInput

definition say :: "event \<Rightarrow> env \<Rightarrow> env" where
  "say ev e = e\<lparr>out := out e @ [ev]\<rparr>"

definition randomBytes :: "nat \<Rightarrow> env \<Rightarrow> fault + byte list \<times> env" where
  "randomBytes n e =
     (if length (entropy e) < n then Inl EntropyUnavailable
      else Inr (take n (entropy e), e\<lparr>entropy := drop n (entropy e)\<rparr>))"

text \<open>\<open>getUserInput\<close>: the next line, trimmed.\<close>

definition getUserInput :: "env \<Rightarrow> fault + string \<times> env" where
  "getUserInput e =
     (case lines e of
        [] \<Rightarrow> Inl AwaitingInput
      | l # ls \<Rightarrow> Inr (trim l, e\<lparr>lines := ls\<rparr>))"

section \<open>Commitment generator\<close>

definition generateSecureKey :: "env \<Rightarrow> fault + byte list \<times> env" where
  "generateSecureKey e = randomBytes 32 e"

text \<open>
  \<open>Math.ceil(Math.log2(range) / 8)\<close> for a range of at least 1, in exact arithmetic:
  the least number of bytes \<open>k\<close> with \<open>range \<le> 256 ^ k\<close>.
\<close>

function bytesNeeded :: "nat \<Rightarrow> nat" where
  "bytesNeeded r = (if r \<le> 1 then 0 else 1 + bytesNeeded ((r + 255) div 256))"
  by pat_completeness auto
termination
  by (relation "measure (\<lambda>r. r)") auto

declare bytesNeeded.simps [simp del]

text \<open>
  \<open>randomValue << 8\<close>: the shift works on 32-bit signed integers, so the operand is
  reduced modulo \<open>2^32\<close> and the result is read as two's complement.
\<close>

definition shl8 :: "int \<Rightarrow> int" where
  "shl8 v = sint (push_bit 8 (word_of_int v :: 32 word))"

definition assemble :: "byte list \<Rightarrow> int" where
  "assemble bs = foldl (\<lambda>randomValue b. shl8 randomValue + uint b) 0 bs"

definition maxValid :: "nat \<Rightarrow> int \<Rightarrow> int" where
  "maxValid k rng = (256 ^ k div rng) * rng - 1"

text \<open>
  The \<open>do ... while\<close> loop for the width \<open>rng\<close> of the range: draw bytes until the
  assembled value is accepted.
\<close>

function draw :: "int \<Rightarrow> env \<Rightarrow> fault + int \<times> env" where
  "draw rng e =
     (if rng < 1 then Inl BadSize
      else (case randomBytes (bytesNeeded (nat rng)) e of
              Inl f \<Rightarrow> Inl f
            | Inr (bs, e1) \<Rightarrow>
                if assemble bs > maxValid (bytesNeeded (nat rng)) rng then draw rng e1
                else Inr (assemble bs, e1)))"
  by pat_completeness auto
termination
proof (relation "measure (\<lambda>(rng, e). length (entropy e))", goal_cases)
  case 1
  show ?case by simp
next
  case (2 rng e x bs e1)
  have pos: "bytesNeeded (nat rng) \<noteq> 0"
  proof
    assume z: "bytesNeeded (nat rng) = 0"
    then have "nat rng \<le> 1"
      by (subst (asm) bytesNeeded.simps) (simp split: if_splits)
    with 2(1) have "rng = 1" by simp
    moreover from z 2(2,3) have "bs = []"
      by (auto simp: randomBytes_def split: if_splits)
    ultimately show False
      using 2(4) z by (simp add: assemble_def maxValid_def)
  qed
  from 2(2,3) have "length (entropy e1) = length (entropy e) - bytesNeeded (nat rng)"
    and "bytesNeeded (nat rng) \<le> length (entropy e)"
    by (auto simp: randomBytes_def split: if_splits)
  with pos show ?case by simp
qed

declare draw.simps [simp del]

definition generateUniformRandom :: "int \<Rightarrow> int \<Rightarrow> env \<Rightarrow> fault + int \<times> env" where
  "generateUniformRandom mn mx e =
     (let rng = mx - mn + 1 in
      case draw rng e of
        Inl f \<Rightarrow> Inl f
      | Inr (randomValue, e1) \<Rightarrow> Inr (js_rem randomValue rng + mn, e1))"

section \<open>Fair value exchange\<close>

function getUserNumber :: "int \<Rightarrow> int \<Rightarrow> env \<Rightarrow> fault + jsval \<times> env" where
  "getUserNumber mn mx e =
     (case getUserInput (say (NumberMenu mn mx) e) of
        Inl f \<Rightarrow> Inl f
      | Inr (choice, e1) \<Rightarrow>
          if is_exit choice then Inr (JNull, e1)
          else if choice = ''?'' then Inr (JQuestion, e1)
          else (case parseInt choice of
                  None \<Rightarrow> getUserNumber mn mx (say (InvalidNumber mn mx) e1)
                | Some num \<Rightarrow>
                    if num \<ge> mn \<and> num \<le> mx then Inr (JNum num, e1)
                    else getUserNumber mn mx (say (InvalidNumber mn mx) e1)))"
  by pat_completeness auto
termination
  by (relation "measure (\<lambda>(mn, mx, e). length (lines e))")
     (auto simp: getUserInput_def say_def split: list.splits)

declare getUserNumber.simps [simp del]

text \<open>
  The expression \<open>(computerNumber + userNumber) % (max - min + 1) + min\<close>. When
  \<open>userNumber\<close> is the string \<open>'?'\<close>, the sum is a string that is no numeral, so the
  remainder and the result are \<open>NaN\<close>.
\<close>

definition fair_result :: "int \<Rightarrow> jsval \<Rightarrow> int \<Rightarrow> int \<Rightarrow> jsval" where
  "fair_result computerNumber userNumber mn mx =
     (case userNumber of
        JQuestion \<Rightarrow> JNaN
      | _ \<Rightarrow> (case to_number userNumber of
                None \<Rightarrow> JNaN
              | Some u \<Rightarrow> JNum (js_rem (computerNumber + u) (mx - mn + 1) + mn)))"

definition fairRandomGeneration :: "int \<Rightarrow> int \<Rightarrow> string \<Rightarrow> env \<Rightarrow> fault + jsval \<times> env" where
  "fairRandomGeneration mn mx purpose e =
     (case generateSecureKey (say (Generating purpose) e) of
        Inl f \<Rightarrow> Inl f
      | Inr (key, e1) \<Rightarrow>
     (case generateUniformRandom mn mx e1 of
        Inl f \<Rightarrow> Inl f
      | Inr (computerNumber, e2) \<Rightarrow>
     (case getUserNumber mn mx (say (Committed mn mx) e2) of
        Inl f \<Rightarrow> Inl f
      | Inr (userNumber, e3) \<Rightarrow>
          if userNumber = JNull then Inr (JNull, e3)
          else (let e4 = say (Revealed computerNumber key) e3;
                    result = fair_result computerNumber userNumber mn mx
                in Inr (result,
                        say (FairResult computerNumber userNumber result (mx - mn + 1)) e4)))))"

section \<open>Game orchestrator\<close>

text \<open>The constructor of \<open>DiceGame\<close> numbers the dice in the order of the arguments.\<close>

definition DiceGame :: "int list list \<Rightarrow> dice list" where
  "DiceGame diceConfigs = map (\<lambda>(i, config). mkDice config i) (enumerate 0 diceConfigs)"

definition displayProbabilityTable :: "dice list \<Rightarrow> env \<Rightarrow> env" where
  "displayProbabilityTable ds e = say (ProbabilityTable (calculateWinProbabilities ds)) e"

text \<open>
  The callers of \<open>fairRandomGeneration\<close> loop while it returns \<open>'?'\<close>. It never does,
  which is what makes their loops terminate.
\<close>

lemma fairRandomGeneration_not_question:
  "fairRandomGeneration mn mx purpose e \<noteq> Inr (JQuestion, e')"
  by (auto simp: fairRandomGeneration_def fair_result_def Let_def
           split: sum.splits prod.splits jsval.splits option.splits)

function first_player_loop :: "dice list \<Rightarrow> env \<Rightarrow> fault + bool option \<times> env" where
  "first_player_loop ds e =
     (case fairRandomGeneration 0 1 ''first move determination'' e of
        Inl f \<Rightarrow> Inl f
      | Inr (result, e1) \<Rightarrow>
          if result = JNull then Inr (None, e1)
          else if result = JQuestion then first_player_loop ds (displayProbabilityTable ds e1)
          else Inr (Some (result = JNum 0), e1))"
  by pat_completeness auto
termination
  by (relation "measure (\<lambda>(ds, e). length (lines e))")
     (auto simp: fairRandomGeneration_not_question)

declare first_player_loop.simps [simp del]

text \<open>
  \<open>determineFirstPlayer\<close>: \<open>None\<close> is \<open>null\<close> (the user left), \<open>Some True\<close> means that
  the computer moves first.
\<close>

definition determineFirstPlayer :: "dice list \<Rightarrow> env \<Rightarrow> fault + bool option \<times> env" where
  "determineFirstPlayer ds e = first_player_loop ds (say FirstMoveIntro e)"

text \<open>
  \<open>computerChooseDice\<close>; \<open>random\<close> is the value that \<open>Math.random()\<close> returns, a number
  in \<open>[0, 1)\<close>. Reading \<open>index\<close> of an element that does not exist is a type error.
\<close>

definition computerChooseDice :: "dice list \<Rightarrow> int \<Rightarrow> rat \<Rightarrow> env \<Rightarrow> fault + nat \<times> env" where
  "computerChooseDice ds excludeIndex random e =
     (let availableDice = map snd (filter (\<lambda>(i, d). int i \<noteq> excludeIndex) (enumerate 0 ds));
          randomIndex = \<lfloor>random * of_nat (length availableDice)\<rfloor>
      in if 0 \<le> randomIndex \<and> randomIndex < int (length availableDice)
         then (let selectedDice = availableDice ! nat randomIndex
               in Inr (index selectedDice, say (ComputerChose (faces selectedDice)) e))
         else Inl TypeError)"

text \<open>
  The selection set of the exclusion rule, written from the specification's words:
  every index of the game except the excluded one.
\<close>

definition available :: "nat \<Rightarrow> int \<Rightarrow> nat list" where
  "available n excludeIndex = filter (\<lambda>k. int k \<noteq> excludeIndex) [0..<n]"

function userChooseDice :: "dice list \<Rightarrow> int \<Rightarrow> env \<Rightarrow> fault + nat option \<times> env" where
  "userChooseDice ds excludeIndex e =
     (case getUserInput (say (DiceMenu excludeIndex) e) of
        Inl f \<Rightarrow> Inl f
      | Inr (choice, e1) \<Rightarrow>
          if is_exit choice then Inr (None, e1)
          else if choice = ''?''
          then userChooseDice ds excludeIndex (displayProbabilityTable ds e1)
          else (case parseInt choice of
                  None \<Rightarrow> userChooseDice ds excludeIndex (say InvalidDice e1)
                | Some diceIndex \<Rightarrow>
                    if diceIndex \<ge> 0 \<and> diceIndex < int (length ds) \<and> diceIndex \<noteq> excludeIndex
                    then Inr (Some (nat diceIndex),
                              say (UserChose (faces (ds ! nat diceIndex))) e1)
                    else userChooseDice ds excludeIndex (say InvalidDice e1)))"
  by pat_completeness auto
termination
  by (relation "measure (\<lambda>(ds, excludeIndex, e). length (lines e))")
     (auto simp: getUserInput_def say_def displayProbabilityTable_def split: list.splits)

declare userChooseDice.simps [simp del]

function roll_loop :: "dice list \<Rightarrow> dice \<Rightarrow> string \<Rightarrow> env \<Rightarrow> fault + jsval \<times> env" where
  "roll_loop ds d playerName e =
     (case fairRandomGeneration 0 (int (getFaceCount d) - 1) (playerName @ '' dice roll'') e of
        Inl f \<Rightarrow> Inl f
      | Inr (faceIndex, e1) \<Rightarrow>
          if faceIndex = JNull then Inr (JNull, e1)
          else if faceIndex = JQuestion then roll_loop ds d playerName (displayProbabilityTable ds e1)
          else (let rollResult = getValue d faceIndex
                in Inr (rollResult, say (RollResult playerName rollResult) e1)))"
  by pat_completeness auto
termination
  by (relation "measure (\<lambda>(ds, d, playerName, e). length (lines e))")
     (auto simp: fairRandomGeneration_not_question)

declare roll_loop.simps [simp del]

definition rollDice :: "dice list \<Rightarrow> dice \<Rightarrow> string \<Rightarrow> env \<Rightarrow> fault + jsval \<times> env" where
  "rollDice ds d playerName e = roll_loop ds d playerName (say (RollIntro playerName) e)"

text \<open>
  \<open>playGame\<close> in its three stages. The selection stage returns the two die indices,
  or \<open>None\<close> when the user left at the prompt. In the last stage a die index outside
  the game gives \<open>undefined\<close> for the die, and the roll with it is a type error.
\<close>

definition select_dice ::
  "dice list \<Rightarrow> bool \<Rightarrow> rat \<Rightarrow> env \<Rightarrow> fault + (nat \<times> nat) option \<times> env" where
  "select_dice ds computerFirst random e =
     (if computerFirst
      then (case computerChooseDice ds (- 1) random e of
              Inl f \<Rightarrow> Inl f
            | Inr (firstPlayerDiceIndex, e1) \<Rightarrow>
                (case userChooseDice ds (int firstPlayerDiceIndex) e1 of
                   Inl f \<Rightarrow> Inl f
                 | Inr (None, e2) \<Rightarrow> Inr (None, e2)
                 | Inr (Some secondPlayerDiceIndex, e2) \<Rightarrow>
                     Inr (Some (firstPlayerDiceIndex, secondPlayerDiceIndex), e2)))
      else (case userChooseDice ds (- 1) e of
              Inl f \<Rightarrow> Inl f
            | Inr (None, e1) \<Rightarrow> Inr (None, e1)
            | Inr (Some firstPlayerDiceIndex, e1) \<Rightarrow>
                (case computerChooseDice ds (int firstPlayerDiceIndex) random e1 of
                   Inl f \<Rightarrow> Inl f
                 | Inr (secondPlayerDiceIndex, e2) \<Rightarrow>
                     Inr (Some (firstPlayerDiceIndex, secondPlayerDiceIndex), e2))))"

definition adjudicate :: "bool \<Rightarrow> jsval \<Rightarrow> jsval \<Rightarrow> event" where
  "adjudicate computerFirst firstRoll secondRoll =
     (if computerFirst
      then (if js_gt firstRoll secondRoll then IWin firstRoll secondRoll
            else if js_gt secondRoll firstRoll then YouWin secondRoll firstRoll
            else Tie firstRoll secondRoll)
      else (if js_gt firstRoll secondRoll then YouWin firstRoll secondRoll
            else if js_gt secondRoll firstRoll then IWin secondRoll firstRoll
            else Tie firstRoll secondRoll))"

definition roll_and_adjudicate :: "dice list \<Rightarrow> bool \<Rightarrow> nat \<Rightarrow> nat \<Rightarrow> env \<Rightarrow> fault + env" where
  "roll_and_adjudicate ds computerFirst firstPlayerDiceIndex secondPlayerDiceIndex e =
     (if firstPlayerDiceIndex < length ds
      then (case rollDice ds (ds ! firstPlayerDiceIndex) (if computerFirst then ''my'' else ''your'') e of
              Inl f \<Rightarrow> Inl f
            | Inr (firstRoll, e1) \<Rightarrow>
                if firstRoll = JNull then Inr e1
                else if secondPlayerDiceIndex < length ds
                then (case rollDice ds (ds ! secondPlayerDiceIndex)
                             (if computerFirst then ''your'' else ''my'') e1 of
                        Inl f \<Rightarrow> Inl f
                      | Inr (secondRoll, e2) \<Rightarrow>
                          if secondRoll = JNull then Inr e2
                          else Inr (say (adjudicate computerFirst firstRoll secondRoll) e2))
                else Inl TypeError)
      else Inl TypeError)"

definition playGame :: "dice list \<Rightarrow> rat \<Rightarrow> env \<Rightarrow> fault + env" where
  "playGame ds random e =
     (case determineFirstPlayer ds e of
        Inl f \<Rightarrow> Inl f
      | Inr (None, e1) \<Rightarrow> Inr e1
      | Inr (Some computerFirst, e1) \<Rightarrow>
          (case select_dice ds computerFirst random e1 of
             Inl f \<Rightarrow> Inl f
           | Inr (None, e2) \<Rightarrow> Inr e2
           | Inr (Some (firstPlayerDiceIndex, secondPlayerDiceIndex), e2) \<Rightarrow>
               roll_and_adjudicate ds computerFirst firstPlayerDiceIndex secondPlayerDiceIndex e2))"

text \<open>
  \<open>main\<close> and the exit code of the process: 1 after an argument error or a fault,
  0 when \<open>playGame\<close> returns; no exit while the game waits for input.
\<close>

datatype exit_status = Exit nat | Pending

definition main :: "string list \<Rightarrow> rat \<Rightarrow> env \<Rightarrow> exit_status" where
  "main args random e =
     (if length args < 3 then Exit 1
      else (case validateArguments args of
              Inl err \<Rightarrow> Exit 1
            | Inr diceConfigs \<Rightarrow>
                (case playGame (DiceGame diceConfigs) random e of
                   Inl f \<Rightarrow> if f = AwaitingInput then Pending else Exit 1
                 | Inr e' \<Rightarrow> Exit 0)))"

definition is_adjudication :: "event \<Rightarrow> bool" where
  "is_adjudication ev = (case ev of IWin a b \<Rightarrow> True | YouWin a b \<Rightarrow> True | Tie a b \<Rightarrow> True | _ \<Rightarrow> False)"

text \<open>
  Two notions for stating what a cancellation does: \<open>feed\<close> lets the user type
  further lines after those already in the environment, and \<open>adjudications\<close> are
  the win, lose and tie messages among the messages printed.
\<close>

definition feed :: "string list \<Rightarrow> env \<Rightarrow> env" where
  "feed typed e = e\<lparr>lines := lines e @ typed\<rparr>"

definition adjudications :: "env \<Rightarrow> event list" where
  "adjudications e = filter is_adjudication (out e)"

definition lift_feed :: "string list \<Rightarrow> fault + 'a \<times> env \<Rightarrow> fault + 'a \<times> env" where
  "lift_feed m r = (case r of Inl f \<Rightarrow> Inl f | Inr (v, e1) \<Rightarrow> Inr (v, feed m e1))"

section \<open>Properties of the probability engine\<close>

lemma foldl_count_face:
  "foldl (count_face a) (w, t) fs = (w + length (filter (\<lambda>b. a > b) fs), t + length fs)"
  by (induction fs arbitrary: w t) (simp_all add: count_face_def)

lemma foldl_count_rows:
  "foldl (\<lambda>acc face1. foldl (count_face face1) acc fs2) (w, t) fs1
     = (w + winning_pairs fs1 fs2, t + length fs1 * length fs2)"
proof (induction fs1 arbitrary: w t)
  case Nil
  show ?case by (simp add: winning_pairs_def)
next
  case (Cons a fs1)
  have "length (filter (\<lambda>(x, y). x > y) (map (Pair a) fs2)) = length (filter (\<lambda>b. a > b) fs2)"
    by (induction fs2) simp_all
  then show ?case
    by (simp add: foldl_count_face Cons.IH winning_pairs_def)
qed

lemma count_pairs_eq:
  "count_pairs fs1 fs2 = (winning_pairs fs1 fs2, length fs1 * length fs2)"
  by (simp add: count_pairs_def foldl_count_rows)

lemma calculatePairProbability_eq:
  "calculatePairProbability d1 d2
     = js_divide (winning_pairs (faces d1) (faces d2)) (getFaceCount d1 * getFaceCount d2)"
  by (simp add: calculatePairProbability_def count_pairs_eq getFaceCount_def)

lemma winning_pairs_example: "winning_pairs [2,2,4,4,9,9] [1,1,6,6,8,8] = 20"
  by (simp add: winning_pairs_def)

text \<open>
  Claim C3, as amended. For the dice \<open>[2,2,4,4,9,9]\<close> and \<open>[1,1,6,6,8,8]\<close> the computed
  probability is the exact fraction of winning pairs among all 36 face pairs, and
  that fraction is \<open>20 / 36 = 5 / 9\<close>.
\<close>

theorem pair_probability_example:
  "calculatePairProbability (mkDice [2,2,4,4,9,9] 0) (mkDice [1,1,6,6,8,8] 1)
     = Some (of_nat (winning_pairs [2,2,4,4,9,9] [1,1,6,6,8,8]) / 36)
   \<and> calculatePairProbability (mkDice [2,2,4,4,9,9] 0) (mkDice [1,1,6,6,8,8] 1) = Some (5 / 9)"
  by (simp add: calculatePairProbability_eq mkDice_def getFaceCount_def js_divide_def
        winning_pairs_example)

text \<open>Claim C3 as stated fails: the value for this pair of dice is not one half.\<close>

theorem pair_probability_not_half:
  "calculatePairProbability (mkDice [2,2,4,4,9,9] 0) (mkDice [1,1,6,6,8,8] 1) \<noteq> Some (1 / 2)"
  by (simp add: calculatePairProbability_eq mkDice_def getFaceCount_def js_divide_def
        winning_pairs_example)

lemma matrix_entry:
  "i < length ds \<Longrightarrow> j < length ds \<Longrightarrow>
   calculateWinProbabilities ds ! i ! j
     = (if i = j then Some (1 / 2) else calculatePairProbability (ds ! i) (ds ! j))"
  by (simp add: calculateWinProbabilities_def Let_def)

text \<open>
  Claim C6. For every list of dice and all positions \<open>i\<close>, \<open>j\<close> in it, the entry
  \<open>[i][j]\<close> of the matrix with \<open>i \<noteq> j\<close> is the number of face pairs in which the face of
  die \<open>i\<close> is strictly greater, counted over the whole Cartesian product, divided by
  the product of the two face counts; every diagonal entry is one half. When one of
  the two dice has no face, count and product are both 0 and the quotient is \<open>NaN\<close>.
\<close>

theorem win_probability_matrix:
  assumes "i < length ds" and "j < length ds"
  shows "(i \<noteq> j \<and> faces (ds ! i) \<noteq> [] \<and> faces (ds ! j) \<noteq> [] \<longrightarrow>
            calculateWinProbabilities ds ! i ! j
              = Some (of_nat (winning_pairs (faces (ds ! i)) (faces (ds ! j)))
                      / of_nat (getFaceCount (ds ! i) * getFaceCount (ds ! j))))
       \<and> (i \<noteq> j \<and> (faces (ds ! i) = [] \<or> faces (ds ! j) = []) \<longrightarrow>
            calculateWinProbabilities ds ! i ! j = None)
       \<and> calculateWinProbabilities ds ! i ! i = Some (1 / 2)"
  using assms
  by (auto simp: matrix_entry calculatePairProbability_eq js_divide_def getFaceCount_def)

lemma DiceGame_three:
  "DiceGame [a, b, c] = [mkDice a 0, mkDice b 1, mkDice c 2]"
  by (simp add: DiceGame_def enumerate_eq_zip upt_rec numeral_2_eq_2)

theorem win_probability_matrix_witness:
  "(0::nat) < length (DiceGame [[2,2,4,4,9,9], [1,1,6,6,8,8], [3,3,5,5,7,7]])
   \<and> (1::nat) < length (DiceGame [[2,2,4,4,9,9], [1,1,6,6,8,8], [3,3,5,5,7,7]])
   \<and> calculateWinProbabilities (DiceGame [[2,2,4,4,9,9], [1,1,6,6,8,8], [3,3,5,5,7,7]]) ! 0 ! 1
       = Some (5 / 9)
   \<and> calculateWinProbabilities (DiceGame [[2,2,4,4,9,9], [1,1,6,6,8,8], [3,3,5,5,7,7]]) ! 0 ! 0
       = Some (1 / 2)"
  using win_probability_matrix [of 0 "DiceGame [[2,2,4,4,9,9], [1,1,6,6,8,8], [3,3,5,5,7,7]]" 1]
  by (simp add: DiceGame_three mkDice_def getFaceCount_def winning_pairs_example)

section \<open>Properties of the dice model\<close>

lemma roll_loop_undefined:
  assumes "fairRandomGeneration 0 (int (getFaceCount d) - 1) (p @ '' dice roll'')
             (say (RollIntro p) e) = Inr (v, e1)"
    and "v \<noteq> JNull" and "getValue d v = JUndefined"
  shows "rollDice ds d p e = Inr (JUndefined, say (RollResult p JUndefined) e1)"
proof -
  from assms(1) have "v \<noteq> JQuestion"
    using fairRandomGeneration_not_question by blast
  with assms show ?thesis
    by (simp add: rollDice_def roll_loop.simps)
qed

text \<open>
  Claim C10. The face lookup checks no bounds: at every number outside
  \<open>0 .. faceCount - 1\<close> and at \<open>NaN\<close>, \<open>getValue\<close> returns \<open>undefined\<close> and signals
  nothing, so that \<open>rollDice\<close>, when the exchange hands it such an index, reports
  and returns an undefined roll value instead of failing.
\<close>

theorem getValue_no_bounds_check:
  "(i < 0 \<or> int (getFaceCount d) \<le> i \<longrightarrow> getValue d (JNum i) = JUndefined)
   \<and> getValue d JNaN = JUndefined
   \<and> (fairRandomGeneration 0 (int (getFaceCount d) - 1) (p @ '' dice roll'')
          (say (RollIntro p) e) = Inr (v, e1)
        \<and> v \<noteq> JNull \<and> getValue d v = JUndefined
       \<longrightarrow> rollDice ds d p e = Inr (JUndefined, say (RollResult p JUndefined) e1))"
  using roll_loop_undefined by (auto simp: getFaceCount_def)

lemma help_roll_run:
  "fairRandomGeneration 0 (int (getFaceCount (mkDice [1,2,3,4,5,6] 0)) - 1) (''my'' @ '' dice roll'')
     (say (RollIntro ''my'') \<lparr>lines = [''?''], entropy = replicate 33 0, out = []\<rparr>)
   = Inr (JNaN, \<lparr>lines = [], entropy = [],
                 out = [RollIntro ''my'', Generating ''my dice roll'', Committed 0 5,
                        NumberMenu 0 5, Revealed 0 (replicate 32 0),
                        FairResult 0 JQuestion JNaN 6]\<rparr>)"
  by (simp add: fairRandomGeneration_def generateSecureKey_def randomBytes_def say_def
        generateUniformRandom_def draw.simps bytesNeeded.simps assemble_def maxValid_def
        getUserNumber.simps getUserInput_def trim_def is_space_def is_exit_def
        fair_result_def js_rem_def shl8_def getFaceCount_def mkDice_def)

theorem getValue_no_bounds_check_witness:
  "getValue (mkDice [1,2,3,4,5,6] 0) (JNum 6) = JUndefined
   \<and> getValue (mkDice [1,2,3,4,5,6] 0) (JNum (- 1)) = JUndefined
   \<and> rollDice [mkDice [1,2,3,4,5,6] 0] (mkDice [1,2,3,4,5,6] 0) ''my''
        \<lparr>lines = [''?''], entropy = replicate 33 0, out = []\<rparr>
      = Inr (JUndefined,
             \<lparr>lines = [], entropy = [],
                out = [RollIntro ''my'', Generating ''my dice roll'', Committed 0 5,
                       NumberMenu 0 5, Revealed 0 (replicate 32 0),
                       FairResult 0 JQuestion JNaN 6, RollResult ''my'' JUndefined]\<rparr>)"
  using getValue_no_bounds_check [of 6 "mkDice [1,2,3,4,5,6] 0" "''my''"
          "\<lparr>lines = [''?''], entropy = replicate 33 0, out = []\<rparr>" JNaN
          "\<lparr>lines = [], entropy = [],
                 out = [RollIntro ''my'', Generating ''my dice roll'', Committed 0 5,
                        NumberMenu 0 5, Revealed 0 (replicate 32 0),
                        FairResult 0 JQuestion JNaN 6]\<rparr>"
          "[mkDice [1,2,3,4,5,6] 0]"]
        getValue_no_bounds_check [of "- 1" "mkDice [1,2,3,4,5,6] 0"]
        help_roll_run
  by (simp add: getFaceCount_def mkDice_def say_def)

section \<open>Properties of the argument validation\<close>

lemma parse_faces_Inr:
  "(\<exists>vals. parse_faces ts = Inr vals) \<longleftrightarrow> (\<forall>t \<in> set ts. parseInt (trim t) \<noteq> None)"
  by (induction ts) (auto split: option.splits sum.splits)

lemma parse_faces_length: "parse_faces ts = Inr vals \<Longrightarrow> length vals = length ts"
  by (induction ts arbitrary: vals) (auto split: option.splits sum.splits)

lemma parseDiceConfig_Inr:
  "(\<exists>vals. parseDiceConfig a = Inr vals) \<longleftrightarrow>
     (length (split_comma a) = 6 \<and> (\<forall>t \<in> set (split_comma a). parseInt (trim t) \<noteq> None))"
  using parse_faces_Inr [of "split_comma a"] parse_faces_length [of "split_comma a"]
  by (auto simp: parseDiceConfig_def split: sum.splits)

lemma parseDiceConfig_length: "parseDiceConfig a = Inr vals \<Longrightarrow> length vals = 6"
  by (auto simp: parseDiceConfig_def split: sum.splits if_splits)

lemma validate_from_Inr:
  "(\<exists>configs. validate_from i args = Inr configs)
     \<longleftrightarrow> (\<forall>a \<in> set args. \<exists>vals. parseDiceConfig a = Inr vals)"
proof (induction args arbitrary: i)
  case Nil
  show ?case by simp
next
  case (Cons a args)
  show ?case
  proof (cases "parseDiceConfig a")
    case (Inl err)
    then show ?thesis by auto
  next
    case (Inr config)
    show ?thesis
      using Cons.IH [of "i + 1"] Inr by (cases "validate_from (i + 1) args") auto
  qed
qed

lemma validate_from_configs:
  "validate_from i args = Inr configs \<Longrightarrow>
     length configs = length args \<and> (\<forall>c \<in> set configs. length c = 6)"
  by (induction args arbitrary: i configs) (auto split: sum.splits dest: parseDiceConfig_length)

lemma validateArguments_Inr:
  "(\<exists>configs. validateArguments args = Inr configs) \<longleftrightarrow>
     (3 \<le> length args \<and>
      (\<forall>a \<in> set args. length (split_comma a) = 6 \<and>
                       (\<forall>t \<in> set (split_comma a). parseInt (trim t) \<noteq> None)))"
  using validate_from_Inr [of 0 args]
  by (auto simp: validateArguments_def parseDiceConfig_Inr)

text \<open>
  Claim C4, as amended. The face count is the constant 6, whatever the first die
  has: the validation accepts exactly the lists of at least 3 arguments in which
  every argument has 6 comma-separated pieces that \<open>parseInt\<close> converts, every
  accepted die has 6 faces, and two arguments with different face counts are always
  rejected with an error.
\<close>

theorem validateArguments_six_faces:
  "((\<exists>configs. validateArguments args = Inr configs) \<longleftrightarrow>
     (3 \<le> length args \<and>
      (\<forall>a \<in> set args. length (split_comma a) = 6 \<and>
                       (\<forall>t \<in> set (split_comma a). parseInt (trim t) \<noteq> None))))
   \<and> (validateArguments args = Inr configs \<longrightarrow>
        length configs = length args \<and> (\<forall>c \<in> set configs. length c = 6))
   \<and> (a \<in> set args \<and> b \<in> set args \<and> length (split_comma a) \<noteq> length (split_comma b) \<longrightarrow>
        (\<exists>err. validateArguments args = Inl err))"
proof (intro conjI impI)
  show "(\<exists>configs. validateArguments args = Inr configs) \<longleftrightarrow>
     (3 \<le> length args \<and>
      (\<forall>a \<in> set args. length (split_comma a) = 6 \<and>
                       (\<forall>t \<in> set (split_comma a). parseInt (trim t) \<noteq> None)))"
    by (rule validateArguments_Inr)
next
  assume "validateArguments args = Inr configs"
  then show "length configs = length args"
    by (auto simp: validateArguments_def split: if_splits dest: validate_from_configs)
next
  assume "validateArguments args = Inr configs"
  then show "\<forall>c \<in> set configs. length c = 6"
    by (auto simp: validateArguments_def split: if_splits dest: validate_from_configs)
next
  assume h: "a \<in> set args \<and> b \<in> set args \<and> length (split_comma a) \<noteq> length (split_comma b)"
  then have "length (split_comma a) \<noteq> 6 \<or> length (split_comma b) \<noteq> 6"
    by auto
  with h have "\<not> (\<exists>configs. validateArguments args = Inr configs)"
    unfolding validateArguments_Inr by blast
  then show "\<exists>err. validateArguments args = Inl err"
    by (cases "validateArguments args") auto
qed

lemma good_arguments:
  "3 \<le> length [''2,2,4,4,9,9'', ''1,1,6,6,8,8'', ''3,3,5,5,7,7'']
   \<and> (\<forall>a \<in> set [''2,2,4,4,9,9'', ''1,1,6,6,8,8'', ''3,3,5,5,7,7''].
         length (split_comma a) = 6 \<and> (\<forall>t \<in> set (split_comma a). parseInt (trim t) \<noteq> None))"
  by (simp add: trim_def is_space_def parseInt_def digit_of_def Let_def)

theorem validateArguments_six_faces_witness:
  "(\<exists>configs. validateArguments [''2,2,4,4,9,9'', ''1,1,6,6,8,8'', ''3,3,5,5,7,7''] = Inr configs)
   \<and> (\<exists>err. validateArguments [''1,2,3'', ''1,2,3,4,5,6'', ''1,2,3,4,5,6''] = Inl err)"
proof
  show "\<exists>configs. validateArguments [''2,2,4,4,9,9'', ''1,1,6,6,8,8'', ''3,3,5,5,7,7''] = Inr configs"
    using validateArguments_six_faces [of "[''2,2,4,4,9,9'', ''1,1,6,6,8,8'', ''3,3,5,5,7,7'']"]
      good_arguments by blast
next
  have "length (split_comma ''1,2,3'') \<noteq> length (split_comma ''1,2,3,4,5,6'')"
    by simp
  then show "\<exists>err. validateArguments [''1,2,3'', ''1,2,3,4,5,6'', ''1,2,3,4,5,6''] = Inl err"
    using validateArguments_six_faces [of "[''1,2,3'', ''1,2,3,4,5,6'', ''1,2,3,4,5,6'']" _
        "''1,2,3''" "''1,2,3,4,5,6''"]
    by simp
qed

text \<open>
  Claim C4 as stated fails: three dice with four faces each have equal, positive
  face counts, and they are rejected.
\<close>

theorem equal_face_counts_rejected:
  "validateArguments [''1,2,3,4'', ''1,2,3,4'', ''1,2,3,4''] = Inl (InDice 1 (FaceCount 4))"
  by (simp add: validateArguments_def parseDiceConfig_def trim_def is_space_def parseInt_def
        digit_of_def digits_value_def Let_def)

text \<open>
  Claim C5 at the argument list whose first die ends in the piece \<open>3.7\<close>: the
  validation raises no error; \<open>parseInt\<close> reads the piece as 3 and the die is
  accepted with the faces 1, 2, 3, 4, 5, 3.
\<close>

theorem fractional_face_accepted:
  "validateArguments [''1,2,3,4,5,3.7'', ''1,2,3,4,5,6'', ''1,2,3,4,5,6'']
     = Inr [[1,2,3,4,5,3], [1,2,3,4,5,6], [1,2,3,4,5,6]]"
  by (simp add: validateArguments_def parseDiceConfig_def trim_def is_space_def parseInt_def
        digit_of_def digits_value_def Let_def)

section \<open>Properties of the commitment generator\<close>

lemma bytesNeeded_example: "bytesNeeded 16777217 = 4"
  by (simp add: bytesNeeded.simps)

lemma assemble_example: "assemble [128, 0, 0, 1] = - 2147483647"
  by (simp add: assemble_def shl8_def)

text \<open>
  Claim C7 at the range \<open>0 .. 16777216\<close>, whose width needs four bytes. With the
  random bytes \<open>80 00 00 01\<close> (hexadecimal) the last shift leaves the 32-bit signed
  range, the assembled value is negative and passes the test against \<open>maxValid\<close>,
  and the draw returns \<open>-16777088\<close>, a number below the range.
\<close>

theorem uniform_draw_out_of_range:
  "generateUniformRandom 0 16777216 \<lparr>lines = [], entropy = [128, 0, 0, 1], out = []\<rparr>
     = Inr (- 16777088, \<lparr>lines = [], entropy = [], out = []\<rparr>)"
  by (simp add: generateUniformRandom_def draw.simps bytesNeeded_example assemble_example
        randomBytes_def maxValid_def js_rem_def)

text \<open>
  Where the draw is sound. \<open>bytesNeeded\<close> is the least number of bytes that can hold
  the width; for a width of at most \<open>2^24\<close> at most three bytes are assembled, no
  shift leaves the 32-bit range, and every value the loop accepts lies between 0
  and \<open>maxValid\<close>, so that the result lies in the range. A range of one value is
  answered without reading a byte and without a division by zero.
\<close>

lemma bytesNeeded_enough: "1 \<le> r \<Longrightarrow> r \<le> 256 ^ bytesNeeded r"
proof (induction r rule: bytesNeeded.induct)
  case (1 r)
  show ?case
  proof (cases "r \<le> 1")
    case True
    then show ?thesis by (subst bytesNeeded.simps) simp
  next
    case False
    then have "1 \<le> (r + 255) div 256" by simp
    with "1.IH" False have "(r + 255) div 256 \<le> 256 ^ bytesNeeded ((r + 255) div 256)"
      by simp
    moreover have "r \<le> 256 * ((r + 255) div 256)" by simp
    ultimately have "r \<le> 256 * 256 ^ bytesNeeded ((r + 255) div 256)"
      by linarith
    with False show ?thesis by (subst bytesNeeded.simps) simp
  qed
qed

lemma bytesNeeded_least: "k < bytesNeeded r \<Longrightarrow> 256 ^ k < r"
proof (induction r arbitrary: k rule: bytesNeeded.induct)
  case (1 r)
  show ?case
  proof (cases "r \<le> 1")
    case True
    with "1.prems" show ?thesis by (subst (asm) bytesNeeded.simps) simp
  next
    case False
    with "1.prems" have k: "k < 1 + bytesNeeded ((r + 255) div 256)"
      by (subst (asm) bytesNeeded.simps) simp
    show ?thesis
    proof (cases k)
      case 0
      with False show ?thesis by simp
    next
      case (Suc k')
      with k have "k' < bytesNeeded ((r + 255) div 256)" by simp
      with "1.IH" False have "256 ^ k' < (r + 255) div 256" by simp
      then have "256 ^ k' + 1 \<le> (r + 255) div 256" by simp
      then have "256 * (256 ^ k' + 1) \<le> 256 * ((r + 255) div 256)" by simp
      also have "\<dots> \<le> r + 255" by simp
      finally have "(256::nat) * 256 ^ k' < r" by simp
      with Suc show ?thesis by simp
    qed
  qed
qed

lemma bytesNeeded_small: "r \<le> 2 ^ 24 \<Longrightarrow> bytesNeeded r \<le> 3"
proof (rule ccontr)
  assume r: "r \<le> 2 ^ 24" and "\<not> bytesNeeded r \<le> 3"
  then have "3 < bytesNeeded r" by simp
  then have "(256::nat) ^ 3 < r" by (rule bytesNeeded_least)
  with r show False by simp
qed

lemma shl8_small: "0 \<le> v \<Longrightarrow> v < 2 ^ 23 \<Longrightarrow> shl8 v = 256 * v"
proof -
  assume v: "0 \<le> v" "v < 2 ^ 23"
  have "push_bit 8 (word_of_int v :: 32 word) = word_of_int (256 * v)"
    by (simp add: push_bit_eq_mult)
  moreover have "sint (word_of_int (256 * v) :: 32 word) = 256 * v"
  proof -
    have "sint (word_of_int (256 * v) :: 32 word) = signed_take_bit (LENGTH(32) - 1) (256 * v)"
      by (rule sint_sbintrunc')
    also have "\<dots> = 256 * v"
      using v by (simp add: signed_take_bit_int_eq_self)
    finally show ?thesis .
  qed
  ultimately show ?thesis by (simp only: shl8_def)
qed

lemma assemble_snoc: "assemble (bs @ [b]) = shl8 (assemble bs) + uint b"
  by (simp add: assemble_def)

lemma assemble_bound:
  "length bs \<le> 3 \<Longrightarrow> 0 \<le> assemble bs \<and> assemble bs < 256 ^ length bs"
proof (induction bs rule: rev_induct)
  case Nil
  show ?case by (simp add: assemble_def)
next
  case (snoc b bs)
  then have IH: "0 \<le> assemble bs" "assemble bs < 256 ^ length bs" and len: "length bs \<le> 2"
    by simp_all
  from len have "(256::int) ^ length bs \<le> 256 ^ 2"
    by (intro power_increasing) simp_all
  with IH have small: "assemble bs < 2 ^ 23" by simp
  have b: "0 \<le> uint b" "uint b < 256"
    using uint_lt2p [of b] by simp_all
  have "assemble (bs @ [b]) = 256 * assemble bs + uint b"
    using IH(1) small by (simp add: assemble_snoc shl8_small)
  moreover have "256 * assemble bs + uint b < 256 * 256 ^ length bs"
    using IH(2) b by linarith
  ultimately show ?case using IH(1) b by simp
qed

lemma draw_accepts:
  "1 \<le> rng \<Longrightarrow> rng \<le> 2 ^ 24 \<Longrightarrow> draw rng e = Inr (v, e1) \<Longrightarrow>
     0 \<le> v \<and> v \<le> maxValid (bytesNeeded (nat rng)) rng"
proof (induction rng e rule: draw.induct)
  case (1 rng e)
  let ?k = "bytesNeeded (nat rng)"
  from "1.prems"(1) have pos: "\<not> rng < 1" by simp
  from "1.prems"(3) pos obtain bs e2 where rb: "randomBytes ?k e = Inr (bs, e2)"
    by (subst (asm) draw.simps) (auto split: sum.splits)
  show ?case
  proof (cases "assemble bs > maxValid ?k rng")
    case True
    with "1.prems"(3) pos rb have "draw rng e2 = Inr (v, e1)"
      by (subst (asm) draw.simps) simp
    with "1.IH" [OF pos rb refl True] "1.prems"(1,2) show ?thesis by simp
  next
    case False
    with "1.prems"(3) pos rb have v: "v = assemble bs"
      by (subst (asm) draw.simps) simp
    from rb have "length bs = ?k"
      by (auto simp: randomBytes_def split: if_splits)
    moreover have "?k \<le> 3"
      using "1.prems"(2) by (intro bytesNeeded_small) (simp add: nat_le_iff)
    ultimately have "0 \<le> assemble bs"
      using assemble_bound [of bs] by simp
    with v False show ?thesis by simp
  qed
qed

lemma generateUniformRandom_in_range:
  assumes "mn \<le> mx" and "mx - mn + 1 \<le> 2 ^ 24"
    and "generateUniformRandom mn mx e = Inr (v, e1)"
  shows "mn \<le> v \<and> v \<le> mx"
proof -
  let ?w = "mx - mn + 1"
  from assms(3) obtain rv where d: "draw ?w e = Inr (rv, e1)" and v: "v = js_rem rv ?w + mn"
    by (auto simp: generateUniformRandom_def Let_def split: sum.splits)
  have w: "0 < ?w" using assms(1) by simp
  from draw_accepts [OF _ assms(2) d] assms(1) have "0 \<le> rv" by simp
  then have "js_rem rv ?w = rv mod ?w"
    using w by (cases "rv = 0") (simp_all add: js_rem_def)
  moreover have "0 \<le> rv mod ?w" using w by simp
  moreover have "rv mod ?w < ?w" using w by (rule pos_mod_bound)
  ultimately show ?thesis using v by linarith
qed

lemma generateUniformRandom_degenerate:
  "generateUniformRandom mn mn e = Inr (mn, e)"
  by (simp add: generateUniformRandom_def draw.simps bytesNeeded.simps randomBytes_def
        assemble_def maxValid_def js_rem_def)

section \<open>Properties of the fair value exchange\<close>

lemma js_rem_nonneg: "0 \<le> a \<Longrightarrow> 0 < b \<Longrightarrow> js_rem a b = a mod b"
  by (cases "a = 0") (simp_all add: js_rem_def)

lemma fair_result_JNum:
  "fair_result c (JNum u) mn mx = JNum (js_rem (c + u) (mx - mn + 1) + mn)"
  by (simp add: fair_result_def)

lemma fairRandomGeneration_number:
  assumes "generateSecureKey (say (Generating purpose) e) = Inr (key, e1)"
    and "generateUniformRandom mn mx e1 = Inr (c, e2)"
    and "getUserNumber mn mx (say (Committed mn mx) e2) = Inr (JNum u, e3)"
  shows "fairRandomGeneration mn mx purpose e
           = Inr (fair_result c (JNum u) mn mx,
                  say (FairResult c (JNum u) (fair_result c (JNum u) mn mx) (mx - mn + 1))
                      (say (Revealed c key) e3))"
  using assms by (simp add: fairRandomGeneration_def Let_def)

text \<open>
  Claim C2, as amended. For every range with \<open>min \<le> max\<close>, every computer value
  \<open>c\<close> and every user number \<open>u\<close> with \<open>c + u \<ge> 0\<close>, the exchange returns exactly
  \<open>(c + u) mod (max - min + 1) + min\<close>, a number of the range; this is the value
  \<open>(c - min + u) mod (max - min + 1) + min\<close> whenever \<open>min\<close> is a multiple of the width,
  as it is for \<open>min = 0\<close>.
\<close>

theorem fair_result_value:
  assumes "mn \<le> mx" and "0 \<le> c + u"
  shows "fair_result c (JNum u) mn mx = JNum ((c + u) mod (mx - mn + 1) + mn)
       \<and> mn \<le> (c + u) mod (mx - mn + 1) + mn
       \<and> (c + u) mod (mx - mn + 1) + mn \<le> mx
       \<and> (mn mod (mx - mn + 1) = 0 \<longrightarrow>
            (c + u) mod (mx - mn + 1) + mn = (c - mn + u) mod (mx - mn + 1) + mn)
       \<and> (generateSecureKey (say (Generating purpose) e) = Inr (key, e1)
            \<and> generateUniformRandom mn mx e1 = Inr (c, e2)
            \<and> getUserNumber mn mx (say (Committed mn mx) e2) = Inr (JNum u, e3)
          \<longrightarrow> (\<exists>e4. fairRandomGeneration mn mx purpose e
                        = Inr (JNum ((c + u) mod (mx - mn + 1) + mn), e4)))"
proof -
  let ?w = "mx - mn + 1"
  have w: "0 < ?w" using assms(1) by simp
  have val: "fair_result c (JNum u) mn mx = JNum ((c + u) mod ?w + mn)"
    using assms(2) w by (simp add: fair_result_JNum js_rem_nonneg)
  have lo: "0 \<le> (c + u) mod ?w" using w by simp
  have hi: "(c + u) mod ?w < ?w" using w by (rule pos_mod_bound)
  have rot: "mn mod ?w = 0 \<longrightarrow> (c + u) mod ?w + mn = (c - mn + u) mod ?w + mn"
  proof
    assume "mn mod ?w = 0"
    then have "(c + u - mn) mod ?w = (c + u) mod ?w"
      by (metis diff_zero mod_diff_right_eq)
    then show "(c + u) mod ?w + mn = (c - mn + u) mod ?w + mn"
      by (simp add: algebra_simps)
  qed
  have run: "generateSecureKey (say (Generating purpose) e) = Inr (key, e1)
            \<and> generateUniformRandom mn mx e1 = Inr (c, e2)
            \<and> getUserNumber mn mx (say (Committed mn mx) e2) = Inr (JNum u, e3)
          \<longrightarrow> (\<exists>e4. fairRandomGeneration mn mx purpose e
                        = Inr (JNum ((c + u) mod ?w + mn), e4))"
    using fairRandomGeneration_number [of purpose e key e1 mn mx c e2 u e3] val by auto
  from hi have hi': "(c + u) mod ?w + mn \<le> mx" by linarith
  from lo have lo': "mn \<le> (c + u) mod ?w + mn" by linarith
  show ?thesis
    using val lo' hi' rot run by blast
qed

lemma exchange_run:
  "generateSecureKey (say (Generating ''roll'') \<lparr>lines = [''3''], entropy = replicate 32 0 @ [4], out = []\<rparr>)
     = Inr (replicate 32 0, \<lparr>lines = [''3''], entropy = [4], out = [Generating ''roll'']\<rparr>)
   \<and> generateUniformRandom 0 5 \<lparr>lines = [''3''], entropy = [4], out = [Generating ''roll'']\<rparr>
     = Inr (4, \<lparr>lines = [''3''], entropy = [], out = [Generating ''roll'']\<rparr>)
   \<and> getUserNumber 0 5 (say (Committed 0 5) \<lparr>lines = [''3''], entropy = [], out = [Generating ''roll'']\<rparr>)
     = Inr (JNum 3, \<lparr>lines = [], entropy = [], out = [Generating ''roll'', Committed 0 5, NumberMenu 0 5]\<rparr>)"
  by (simp add: generateSecureKey_def randomBytes_def say_def
        generateUniformRandom_def draw.simps bytesNeeded.simps assemble_def maxValid_def
        getUserNumber.simps getUserInput_def trim_def is_space_def is_exit_def
        js_rem_def shl8_def parseInt_def digit_of_def digits_value_def Let_def)

theorem fair_result_value_witness:
  "(0::int) \<le> 5 \<and> (0::int) \<le> 4 + 3
   \<and> fair_result 4 (JNum 3) 0 5 = JNum 1
   \<and> JNum 1 = JNum ((4 - 0 + 3) mod (5 - 0 + 1) + 0)
   \<and> (\<exists>e4. fairRandomGeneration 0 5 ''roll''
              \<lparr>lines = [''3''], entropy = replicate 32 0 @ [4], out = []\<rparr> = Inr (JNum 1, e4))"
  using fair_result_value [of 0 5 4 3 "''roll''"
          "\<lparr>lines = [''3''], entropy = replicate 32 0 @ [4], out = []\<rparr>"
          "replicate 32 0"
          "\<lparr>lines = [''3''], entropy = [4], out = [Generating ''roll'']\<rparr>"
          "\<lparr>lines = [''3''], entropy = [], out = [Generating ''roll'']\<rparr>"
          "\<lparr>lines = [], entropy = [], out = [Generating ''roll'', Committed 0 5, NumberMenu 0 5]\<rparr>"]
        exchange_run
  by simp

lemma shifted_exchange_run:
  "generateSecureKey (say (Generating ''p'') \<lparr>lines = [''1''], entropy = replicate 33 0, out = []\<rparr>)
     = Inr (replicate 32 0, \<lparr>lines = [''1''], entropy = [0], out = [Generating ''p'']\<rparr>)
   \<and> generateUniformRandom 1 3 \<lparr>lines = [''1''], entropy = [0], out = [Generating ''p'']\<rparr>
     = Inr (1, \<lparr>lines = [''1''], entropy = [], out = [Generating ''p'']\<rparr>)
   \<and> getUserNumber 1 3 (say (Committed 1 3) \<lparr>lines = [''1''], entropy = [], out = [Generating ''p'']\<rparr>)
     = Inr (JNum 1, \<lparr>lines = [], entropy = [], out = [Generating ''p'', Committed 1 3, NumberMenu 1 3]\<rparr>)"
  by (simp add: generateSecureKey_def randomBytes_def say_def
        generateUniformRandom_def draw.simps bytesNeeded.simps assemble_def maxValid_def
        getUserNumber.simps getUserInput_def trim_def is_space_def is_exit_def
        js_rem_def shl8_def parseInt_def digit_of_def digits_value_def Let_def)

text \<open>
  Claim C2 as stated fails on the range \<open>1 .. 3\<close>: with the computer value 1 and the
  user number 1 the exchange returns 3, and the claimed value is 2.
\<close>

theorem fair_result_shifted_range:
  "fairRandomGeneration 1 3 ''p'' \<lparr>lines = [''1''], entropy = replicate 33 0, out = []\<rparr>
     = Inr (JNum 3,
            \<lparr>lines = [], entropy = [],
               out = [Generating ''p'', Committed 1 3, NumberMenu 1 3,
                      Revealed 1 (replicate 32 0), FairResult 1 (JNum 1) (JNum 3) 3]\<rparr>)
   \<and> JNum 3 \<noteq> JNum ((1 - 1 + 1) mod (3 - 1 + 1) + 1)"
  using shifted_exchange_run
  by (simp add: fairRandomGeneration_def Let_def fair_result_def js_rem_def say_def)

lemma help_is_not_passed_on:
  assumes "generateSecureKey (say (Generating purpose) e) = Inr (key, e1)"
    and "generateUniformRandom mn mx e1 = Inr (c, e2)"
    and "getUserNumber mn mx (say (Committed mn mx) e2) = Inr (JQuestion, e3)"
  shows "fairRandomGeneration mn mx purpose e
           = Inr (JNaN, say (FairResult c JQuestion JNaN (mx - mn + 1)) (say (Revealed c key) e3))"
  using assms by (simp add: fairRandomGeneration_def Let_def fair_result_def)

text \<open>
  Claim C1 at a game whose user answers the first prompt with \<open>?\<close>. The exchange
  does not repeat: it reveals the key and the computer's number, returns \<open>NaN\<close>,
  and \<open>determineFirstPlayer\<close> takes that for "the user moves first" without
  showing the probability table.
\<close>

theorem help_reveals_key:
  "determineFirstPlayer (DiceGame [[2,2,4,4,9,9], [1,1,6,6,8,8], [3,3,5,5,7,7]])
     \<lparr>lines = [''?''], entropy = replicate 33 0, out = []\<rparr>
   = Inr (Some False,
          \<lparr>lines = [], entropy = [],
             out = [FirstMoveIntro, Generating ''first move determination'', Committed 0 1,
                    NumberMenu 0 1, Revealed 0 (replicate 32 0),
                    FairResult 0 JQuestion JNaN 2]\<rparr>)"
  by (simp add: determineFirstPlayer_def first_player_loop.simps
        fairRandomGeneration_def generateSecureKey_def randomBytes_def say_def
        generateUniformRandom_def draw.simps bytesNeeded.simps assemble_def maxValid_def
        getUserNumber.simps getUserInput_def trim_def is_space_def is_exit_def
        fair_result_def js_rem_def shl8_def)

section \<open>Properties of the dice selection\<close>

lemma is_digit_char_of: "d < 10 \<Longrightarrow> is_digit (char_of (48 + d :: nat))"
  by (simp add: is_digit_def)

lemma decimal_digits: "\<forall>c \<in> set (decimal n). is_digit c"
proof (induction n rule: decimal.induct)
  case (1 n)
  show ?case
  proof (cases "n < 10")
    case True
    then show ?thesis by (subst decimal.simps) (simp add: is_digit_char_of)
  next
    case False
    then show ?thesis
      using 1 by (subst decimal.simps) (simp add: is_digit_char_of)
  qed
qed

lemma decimal_nonempty: "decimal n \<noteq> []"
  by (subst decimal.simps) simp

lemma digit_of_digit: "is_digit c \<Longrightarrow> digit_of 10 c = Some (of_char c - 48)"
  by (auto simp: is_digit_def digit_of_def Let_def)

lemma digits_value_snoc:
  "digits_value r (xs @ [c]) = digits_value r xs * r + (case digit_of r c of Some d \<Rightarrow> d | None \<Rightarrow> 0)"
  by (simp add: digits_value_def)

lemma digits_value_decimal: "digits_value 10 (decimal n) = n"
proof (induction n rule: decimal.induct)
  case (1 n)
  show ?case
  proof (cases "n < 10")
    case True
    then show ?thesis
      by (subst decimal.simps) (simp add: digits_value_def digit_of_digit is_digit_char_of)
  next
    case False
    then have "digits_value 10 (decimal (n div 10)) = n div 10"
      using 1 by simp
    then show ?thesis
      using False
      by (subst decimal.simps)
         (simp add: digits_value_snoc digit_of_digit is_digit_char_of)
  qed
qed

lemma digit_not_space: "is_digit c \<Longrightarrow> \<not> is_space c"
  by (auto simp: is_digit_def is_space_def)

lemma dropWhile_none: "\<forall>c \<in> set s. \<not> P c \<Longrightarrow> dropWhile P s = s"
  by (cases s) simp_all

lemma trim_digits: "\<forall>c \<in> set s. is_digit c \<Longrightarrow> trim s = s"
  by (simp add: trim_def dropWhile_none digit_not_space)

lemma parseInt_digits:
  assumes "\<forall>c \<in> set s. is_digit c" and "s \<noteq> []"
  shows "parseInt s = Some (int (digits_value 10 s))"
proof -
  obtain c cs where s: "s = c # cs" using assms(2) by (cases s) auto
  have c: "is_digit c" using assms(1) s by simp
  then have nosign: "c \<noteq> CHR ''-''" "c \<noteq> CHR ''+''"
    by (auto simp: is_digit_def)
  have nohex: "take 2 s \<noteq> ''0x''" "take 2 s \<noteq> ''0X''"
  proof -
    have "\<not> is_digit CHR ''x''" "\<not> is_digit CHR ''X''" by (simp_all add: is_digit_def)
    then show "take 2 s \<noteq> ''0x''" "take 2 s \<noteq> ''0X''"
      using assms(1) s by (cases cs; auto)+
  qed
  have drop: "dropWhile is_space s = s"
    using assms(1) by (simp add: dropWhile_none digit_not_space)
  have neg: "(case s of c # _ \<Rightarrow> c = CHR ''-'' | [] \<Rightarrow> False) = False"
    using nosign by (simp add: s)
  have s2: "(case s of c # r \<Rightarrow> if c = CHR ''-'' \<or> c = CHR ''+'' then r else s | [] \<Rightarrow> s) = s"
    using nosign by (simp add: s)
  have tw: "takeWhile (\<lambda>c. digit_of 10 c \<noteq> None) s = s"
    using assms(1) by (simp add: takeWhile_eq_all_conv digit_of_digit)
  have hex: "(take 2 s = ''0x'' \<or> take 2 s = ''0X'') = False"
    using nohex by simp
  show ?thesis
    unfolding parseInt_def Let_def drop neg s2 hex if_False tw
    using assms(2) by simp
qed

lemma parseInt_decimal: "parseInt (decimal n) = Some (int n)"
  using parseInt_digits [OF decimal_digits decimal_nonempty] by (simp add: digits_value_decimal)

lemma trim_decimal: "trim (decimal n) = decimal n"
  using decimal_digits by (rule trim_digits)

lemma decimal_no_command: "\<not> is_exit (decimal n) \<and> decimal n \<noteq> ''?''"
proof -
  have "\<not> is_digit CHR ''X''" "\<not> is_digit CHR ''x''" "\<not> is_digit CHR ''?''"
    by (simp_all add: is_digit_def)
  then show ?thesis
    using decimal_digits [of n] by (auto simp: is_exit_def)
qed

lemma DiceGame_length: "length (DiceGame cfgs) = length cfgs"
  by (simp add: DiceGame_def)

lemma DiceGame_nth:
  "k < length cfgs \<Longrightarrow> DiceGame cfgs ! k = mkDice (cfgs ! k) k"
  by (simp add: DiceGame_def nth_enumerate_eq)

lemma enumerate_map_nth: "enumerate 0 xs = map (\<lambda>k. (k, xs ! k)) [0..<length xs]"
  by (rule nth_equalityI) (simp_all add: nth_enumerate_eq)

lemma available_set: "set (available n ex) = {k. k < n \<and> int k \<noteq> ex}"
  by (auto simp: available_def)

lemma availableDice_index:
  "map index (map snd (filter (\<lambda>(i, d). int i \<noteq> ex) (enumerate 0 (DiceGame cfgs))))
     = available (length cfgs) ex"
proof -
  have "map index (map snd (filter (\<lambda>(i, d). int i \<noteq> ex) (enumerate 0 (DiceGame cfgs))))
      = map (\<lambda>k. index (DiceGame cfgs ! k)) (available (length cfgs) ex)"
    by (simp add: enumerate_map_nth filter_map o_def DiceGame_length available_def)
  also have "\<dots> = map (\<lambda>k. k) (available (length cfgs) ex)"
    by (rule map_cong) (auto simp: available_set DiceGame_nth mkDice_def)
  finally show ?thesis by simp
qed

lemma availableDice_length:
  "length (filter (\<lambda>(i, d). int i \<noteq> ex) (enumerate 0 (DiceGame cfgs)))
     = length (available (length cfgs) ex)"
  using availableDice_index [of ex cfgs, THEN arg_cong, of length] by simp

lemma availableDice_nth:
  assumes "p < length (available (length cfgs) ex)"
  shows "index (map snd (filter (\<lambda>(i, d). int i \<noteq> ex) (enumerate 0 (DiceGame cfgs))) ! p)
           = available (length cfgs) ex ! p"
proof -
  let ?A = "map snd (filter (\<lambda>(i, d). int i \<noteq> ex) (enumerate 0 (DiceGame cfgs)))"
  have "p < length ?A" using assms by (simp add: availableDice_length)
  then have "index (?A ! p) = map index ?A ! p" by simp
  then show ?thesis by (simp only: availableDice_index)
qed

lemma computerChooseDice_eq:
  "computerChooseDice (DiceGame cfgs) ex random e =
     (if 0 \<le> \<lfloor>random * of_nat (length (available (length cfgs) ex))\<rfloor>
         \<and> \<lfloor>random * of_nat (length (available (length cfgs) ex))\<rfloor>
               < int (length (available (length cfgs) ex))
      then Inr (available (length cfgs) ex
                  ! nat \<lfloor>random * of_nat (length (available (length cfgs) ex))\<rfloor>,
                say (ComputerChose (faces (map snd (filter (\<lambda>(i, d). int i \<noteq> ex)
                       (enumerate 0 (DiceGame cfgs)))
                  ! nat \<lfloor>random * of_nat (length (available (length cfgs) ex))\<rfloor>))) e)
      else Inl TypeError)"
proof -
  let ?L = "length (available (length cfgs) ex)"
  let ?r = "\<lfloor>random * of_nat ?L\<rfloor>"
  show ?thesis
  proof (cases "0 \<le> ?r \<and> ?r < int ?L")
    case True
    then have "nat ?r < ?L" by linarith
    then have "index (map snd (filter (\<lambda>(i, d). int i \<noteq> ex) (enumerate 0 (DiceGame cfgs))) ! nat ?r)
                 = available (length cfgs) ex ! nat ?r"
      by (rule availableDice_nth)
    with True show ?thesis
      unfolding computerChooseDice_def Let_def length_map availableDice_length
      by (simp only: if_True)
  next
    case False
    then show ?thesis
      unfolding computerChooseDice_def Let_def length_map availableDice_length
      by (simp only: if_False)
  qed
qed

lemma computerChooseDice_available:
  assumes "computerChooseDice (DiceGame cfgs) ex random e = Inr (j, e')"
  shows "j < length cfgs \<and> int j \<noteq> ex"
proof -
  let ?L = "length (available (length cfgs) ex)"
  let ?r = "\<lfloor>random * of_nat ?L\<rfloor>"
  have r: "0 \<le> ?r \<and> ?r < int ?L"
  proof (rule ccontr)
    assume "\<not> (0 \<le> ?r \<and> ?r < int ?L)"
    then have "computerChooseDice (DiceGame cfgs) ex random e = Inl TypeError"
      unfolding computerChooseDice_eq by (rule if_not_P)
    with assms show False by simp
  qed
  then have "computerChooseDice (DiceGame cfgs) ex random e
               = Inr (available (length cfgs) ex ! nat ?r,
                      say (ComputerChose (faces (map snd (filter (\<lambda>(i, d). int i \<noteq> ex)
                             (enumerate 0 (DiceGame cfgs))) ! nat ?r))) e)"
    unfolding computerChooseDice_eq by (rule if_P)
  with assms have j: "j = available (length cfgs) ex ! nat ?r"
    by simp
  from r have "nat ?r < ?L" by linarith
  with j have "j \<in> set (available (length cfgs) ex)"
    by simp
  then show ?thesis by (simp add: available_set)
qed

lemma computerChooseDice_selectable:
  assumes "j < length cfgs" and "int j \<noteq> ex"
  shows "\<exists>random e'. 0 \<le> random \<and> random < 1
           \<and> computerChooseDice (DiceGame cfgs) ex random e = Inr (j, e')"
proof -
  let ?L = "length (available (length cfgs) ex)"
  from assms have "j \<in> set (available (length cfgs) ex)"
    by (simp add: available_set)
  then obtain p where p: "p < ?L" "available (length cfgs) ex ! p = j"
    by (auto simp: in_set_conv_nth)
  define random :: rat where "random = of_nat p / of_nat ?L"
  have L: "0 < ?L" using p(1) by linarith
  have range: "0 \<le> random" "random < 1"
    using p(1) L by (simp_all add: random_def)
  have fl: "\<lfloor>random * of_nat ?L\<rfloor> = int p"
    using L by (simp add: random_def)
  have "\<exists>e'. computerChooseDice (DiceGame cfgs) ex random e = Inr (j, e')"
    unfolding computerChooseDice_eq fl using p by simp
  with range show ?thesis by blast
qed

lemma userChooseDice_available:
  "userChooseDice ds ex e = Inr (Some j, e') \<Longrightarrow> j < length ds \<and> int j \<noteq> ex"
proof (induction ds ex e rule: userChooseDice.induct)
  case (1 ds ex e)
  show ?case
  proof (cases "getUserInput (say (DiceMenu ex) e)")
    case (Inl f)
    with "1.prems" show ?thesis
      by (subst (asm) userChooseDice.simps) simp
  next
    case (Inr r)
    obtain choice e1 where r: "r = (choice, e1)" by (cases r)
    note inp = Inr [unfolded r]
    show ?thesis
    proof (cases "is_exit choice")
      case True
      with "1.prems" inp show ?thesis
        by (subst (asm) userChooseDice.simps) simp
    next
      case noexit: False
      show ?thesis
      proof (cases "choice = ''?''")
        case True
        with "1.prems" inp noexit
        have "userChooseDice ds ex (displayProbabilityTable ds e1) = Inr (Some j, e')"
          by (subst (asm) userChooseDice.simps) simp
        with "1.IH"(1) [OF inp refl noexit True] show ?thesis .
      next
        case nohelp: False
        show ?thesis
        proof (cases "parseInt choice")
          case None
          with "1.prems" inp noexit nohelp
          have "userChooseDice ds ex (say InvalidDice e1) = Inr (Some j, e')"
            by (subst (asm) userChooseDice.simps) simp
          with "1.IH"(2) [OF inp refl noexit nohelp None] show ?thesis .
        next
          case (Some diceIndex)
          show ?thesis
          proof (cases "diceIndex \<ge> 0 \<and> diceIndex < int (length ds) \<and> diceIndex \<noteq> ex")
            case True
            with "1.prems" inp noexit nohelp Some have "j = nat diceIndex"
              by (subst (asm) userChooseDice.simps) simp
            with True show ?thesis by auto
          next
            case False
            with "1.prems" inp noexit nohelp Some
            have "userChooseDice ds ex (say InvalidDice e1) = Inr (Some j, e')"
              by (subst (asm) userChooseDice.simps) auto
            with "1.IH"(3) [OF inp refl noexit nohelp Some False] show ?thesis .
          qed
        qed
      qed
    qed
  qed
qed


lemma userChooseDice_selectable:
  assumes "j < length ds" and "int j \<noteq> ex"
  shows "userChooseDice ds ex (e\<lparr>lines := decimal j # rest\<rparr>)
           = Inr (Some j, say (UserChose (faces (ds ! j)))
                            ((say (DiceMenu ex) e)\<lparr>lines := rest\<rparr>))"
  using assms
  by (subst userChooseDice.simps)
     (simp add: getUserInput_def say_def trim_decimal decimal_no_command parseInt_decimal)

lemma select_dice_distinct:
  assumes "select_dice (DiceGame cfgs) computerFirst random e = Inr (Some (i, j), e')"
  shows "i < length cfgs \<and> j < length cfgs \<and> j \<noteq> i"
  using assms
  by (auto simp: select_dice_def DiceGame_length
           split: if_splits sum.splits prod.splits option.splits
           dest!: computerChooseDice_available userChooseDice_available)

text \<open>
  Claim C8. Whatever index \<open>ex\<close> the first player has taken, the second player's
  choice excludes exactly that index. The computer's pick is never \<open>ex\<close> and every
  other index of the game is picked for some value of \<open>Math.random()\<close>; the user's
  accepted answer is never \<open>ex\<close> and every other index is accepted when typed;
  and in \<open>playGame\<close> the two indices that leave the selection stage differ.
\<close>

theorem exclusion_rule:
  "(computerChooseDice (DiceGame cfgs) ex random e = Inr (j, e') \<longrightarrow> j < length cfgs \<and> int j \<noteq> ex)
   \<and> (k < length cfgs \<and> int k \<noteq> ex \<longrightarrow>
        (\<exists>r e1. 0 \<le> r \<and> r < 1 \<and> computerChooseDice (DiceGame cfgs) ex r e = Inr (k, e1)))
   \<and> (userChooseDice (DiceGame cfgs) ex e = Inr (Some j, e') \<longrightarrow> j < length cfgs \<and> int j \<noteq> ex)
   \<and> (k < length cfgs \<and> int k \<noteq> ex \<longrightarrow>
        (\<exists>e1. userChooseDice (DiceGame cfgs) ex (e\<lparr>lines := decimal k # rest\<rparr>) = Inr (Some k, e1)))
   \<and> (select_dice (DiceGame cfgs) computerFirst random e = Inr (Some (i, j), e') \<longrightarrow>
        i < length cfgs \<and> j < length cfgs \<and> j \<noteq> i)"
proof -
  have c1: "computerChooseDice (DiceGame cfgs) ex random e = Inr (j, e') \<longrightarrow> j < length cfgs \<and> int j \<noteq> ex"
    using computerChooseDice_available by blast
  have c2: "k < length cfgs \<and> int k \<noteq> ex \<longrightarrow>
        (\<exists>r e1. 0 \<le> r \<and> r < 1 \<and> computerChooseDice (DiceGame cfgs) ex r e = Inr (k, e1))"
    using computerChooseDice_selectable [of k cfgs ex e] by simp
  have c3: "userChooseDice (DiceGame cfgs) ex e = Inr (Some j, e') \<longrightarrow> j < length cfgs \<and> int j \<noteq> ex"
    using userChooseDice_available [of "DiceGame cfgs" ex e j e'] by (simp add: DiceGame_length)
  have c4: "k < length cfgs \<and> int k \<noteq> ex \<longrightarrow>
        (\<exists>e1. userChooseDice (DiceGame cfgs) ex (e\<lparr>lines := decimal k # rest\<rparr>) = Inr (Some k, e1))"
    using userChooseDice_selectable [where j = k and ds = "DiceGame cfgs" and ex = ex and e = e and rest = rest] by (simp add: DiceGame_length)
  have c5: "select_dice (DiceGame cfgs) computerFirst random e = Inr (Some (i, j), e') \<longrightarrow>
        i < length cfgs \<and> j < length cfgs \<and> j \<noteq> i"
    using select_dice_distinct [of cfgs computerFirst random e i j e'] by simp
  from c1 c2 c3 c4 c5 show ?thesis by (intro conjI)
qed

lemma decimal_one: "decimal (Suc 0) = ''1''"
  by code_simp

theorem exclusion_rule_witness:
  "(1::nat) < length [[2,2,4,4,9,9], [1,1,6,6,8,8], [3,3,5,5,7,7::int]] \<and> int 1 \<noteq> 0
   \<and> (\<exists>r e1. 0 \<le> r \<and> r < 1
         \<and> computerChooseDice (DiceGame [[2,2,4,4,9,9], [1,1,6,6,8,8], [3,3,5,5,7,7]]) 0 r
              \<lparr>lines = [], entropy = [], out = []\<rparr> = Inr (1, e1))
   \<and> (\<exists>e1. userChooseDice (DiceGame [[2,2,4,4,9,9], [1,1,6,6,8,8], [3,3,5,5,7,7]]) 0
              \<lparr>lines = [''1''], entropy = [], out = []\<rparr> = Inr (Some 1, e1))"
  using exclusion_rule [where cfgs = "[[2,2,4,4,9,9], [1,1,6,6,8,8], [3,3,5,5,7,7]]"
      and ex = 0 and k = 1 and e = "\<lparr>lines = [], entropy = [], out = []\<rparr>" and rest = "[]"]
  by (simp add: decimal_one)

section \<open>Properties of the cancellation\<close>

lemma feed_simps [simp]:
  "lines (feed m e) = lines e @ m" "entropy (feed m e) = entropy e" "out (feed m e) = out e"
  by (simp_all add: feed_def)

lemma say_simps [simp]:
  "lines (say ev e) = lines e" "entropy (say ev e) = entropy e" "out (say ev e) = out e @ [ev]"
  by (simp_all add: say_def)

lemma say_feed: "say ev (feed m e) = feed m (say ev e)"
  by (simp add: say_def feed_def)

lemma adjudications_simps [simp]:
  "adjudications (feed m e) = adjudications e"
  "adjudications (e\<lparr>lines := ls\<rparr>) = adjudications e"
  "adjudications (e\<lparr>entropy := bs\<rparr>) = adjudications e"
  by (simp_all add: adjudications_def)

lemma adjudications_say:
  "adjudications (say ev e) = (if is_adjudication ev then adjudications e @ [ev] else adjudications e)"
  by (simp add: adjudications_def)

lemma getUserNumber_step:
  "getUserNumber mn mx e =
     (case lines e of
        [] \<Rightarrow> Inl AwaitingInput
      | l # ls \<Rightarrow>
          if is_exit (trim l) then Inr (JNull, (say (NumberMenu mn mx) e)\<lparr>lines := ls\<rparr>)
          else if trim l = ''?'' then Inr (JQuestion, (say (NumberMenu mn mx) e)\<lparr>lines := ls\<rparr>)
          else (case parseInt (trim l) of
                  None \<Rightarrow> getUserNumber mn mx
                            (say (InvalidNumber mn mx) ((say (NumberMenu mn mx) e)\<lparr>lines := ls\<rparr>))
                | Some num \<Rightarrow>
                    if num \<ge> mn \<and> num \<le> mx
                    then Inr (JNum num, (say (NumberMenu mn mx) e)\<lparr>lines := ls\<rparr>)
                    else getUserNumber mn mx
                           (say (InvalidNumber mn mx) ((say (NumberMenu mn mx) e)\<lparr>lines := ls\<rparr>))))"
  by (subst getUserNumber.simps) (simp add: getUserInput_def split: list.splits)

lemma feed_lines_update: "lines e = l # ls \<Longrightarrow> (feed m e)\<lparr>lines := ls @ m\<rparr> = feed m (e\<lparr>lines := ls\<rparr>)"
  by (simp add: feed_def)

lemma getUserNumber_ext:
  "lines e = ls \<Longrightarrow> getUserNumber mn mx e = Inr (v, e1) \<Longrightarrow>
     getUserNumber mn mx (feed m e) = Inr (v, feed m e1) \<and> adjudications e1 = adjudications e"
proof (induction ls arbitrary: e)
  case Nil
  then show ?case by (subst (asm) getUserNumber_step) simp
next
  case (Cons l ls)
  let ?e1 = "(say (NumberMenu mn mx) e)\<lparr>lines := ls\<rparr>"
  have feed1: "(feed m (say (NumberMenu mn mx) e))\<lparr>lines := ls @ m\<rparr> = feed m ?e1"
    using Cons.prems(1) by (simp add: feed_def say_def)
  have IH: "getUserNumber mn mx (say (InvalidNumber mn mx) ?e1) = Inr (v, e1) \<Longrightarrow>
      getUserNumber mn mx (feed m (say (InvalidNumber mn mx) ?e1)) = Inr (v, feed m e1)
      \<and> adjudications e1 = adjudications (say (InvalidNumber mn mx) ?e1)"
    by (rule Cons.IH) simp
  have quiet: "adjudications (say (InvalidNumber mn mx) ?e1) = adjudications e"
    "adjudications ?e1 = adjudications e"
    by (simp_all add: adjudications_say is_adjudication_def)
  from Cons.prems(2) show ?case
    apply (subst (asm) getUserNumber_step)
    apply (subst getUserNumber_step)
    using Cons.prems(1) IH quiet
    apply (auto simp: feed1 say_feed split: if_splits option.splits)
    done
qed


lemma getUserNumber_cancel:
  "lines e = ls \<Longrightarrow> getUserNumber mn mx e = Inl AwaitingInput \<Longrightarrow> is_exit (trim x) \<Longrightarrow>
     \<exists>e1. getUserNumber mn mx (feed (x # rest) e) = Inr (JNull, e1)
          \<and> lines e1 = rest \<and> adjudications e1 = adjudications e"
proof (induction ls arbitrary: e)
  case Nil
  then show ?case
    by (subst getUserNumber_step) (simp add: adjudications_say is_adjudication_def)
next
  case (Cons l ls)
  let ?e1 = "(say (NumberMenu mn mx) e)\<lparr>lines := ls\<rparr>"
  have feed1: "(feed (x # rest) (say (NumberMenu mn mx) e))\<lparr>lines := ls @ x # rest\<rparr>
                 = feed (x # rest) ?e1"
    using Cons.prems(1) by (simp add: feed_def say_def)
  have IH: "getUserNumber mn mx (say (InvalidNumber mn mx) ?e1) = Inl AwaitingInput \<Longrightarrow>
      \<exists>e1. getUserNumber mn mx (feed (x # rest) (say (InvalidNumber mn mx) ?e1)) = Inr (JNull, e1)
           \<and> lines e1 = rest \<and> adjudications e1 = adjudications (say (InvalidNumber mn mx) ?e1)"
    using Cons.prems(3) by (intro Cons.IH) simp_all
  have quiet: "adjudications (say (InvalidNumber mn mx) ?e1) = adjudications e"
    by (simp add: adjudications_say is_adjudication_def)
  from Cons.prems(2) show ?case
    apply (subst (asm) getUserNumber_step)
    apply (subst getUserNumber_step)
    using Cons.prems(1) IH quiet
    apply (auto simp: feed1 say_feed split: if_splits option.splits)
    done
qed

lemma lift_feed_simps [simp]:
  "lift_feed m (Inl f) = Inl f" "lift_feed m (Inr (v, e1)) = Inr (v, feed m e1)"
  by (simp_all add: lift_feed_def)

lemma feed_entropy_update: "(feed m e)\<lparr>entropy := bs\<rparr> = feed m (e\<lparr>entropy := bs\<rparr>)"
  by (simp add: feed_def)

lemma randomBytes_feed: "randomBytes n (feed m e) = lift_feed m (randomBytes n e)"
  by (simp add: randomBytes_def feed_entropy_update)

lemma randomBytes_frame:
  "randomBytes n e = Inr (bs, e1) \<Longrightarrow> lines e1 = lines e \<and> out e1 = out e"
  by (auto simp: randomBytes_def split: if_splits)

lemma randomBytes_fault: "randomBytes n e \<noteq> Inl AwaitingInput"
  by (simp add: randomBytes_def)

lemma draw_feed: "draw rng (feed m e) = lift_feed m (draw rng e)"
proof (induction rng e rule: draw.induct)
  case (1 rng e)
  show ?case
  proof (cases "rng < 1")
    case True
    then show ?thesis by (simp add: draw.simps [of rng e] draw.simps [of rng "feed m e"])
  next
    case False
    show ?thesis
    proof (cases "randomBytes (bytesNeeded (nat rng)) e")
      case (Inl f)
      with False show ?thesis
        by (simp add: draw.simps [of rng e] draw.simps [of rng "feed m e"] randomBytes_feed)
    next
      case (Inr r)
      obtain bs e1 where r: "r = (bs, e1)" by (cases r)
      show ?thesis
      proof (cases "assemble bs > maxValid (bytesNeeded (nat rng)) rng")
        case True
        with "1.IH" [OF False Inr r [symmetric] True] False Inr r show ?thesis
          by (simp add: draw.simps [of rng e] draw.simps [of rng "feed m e"] randomBytes_feed)
      next
        case no: False
        with False Inr r show ?thesis
          by (simp add: draw.simps [of rng e] draw.simps [of rng "feed m e"] randomBytes_feed)
      qed
    qed
  qed
qed

lemma draw_frame:
  "draw rng e = Inr (v, e1) \<Longrightarrow> lines e1 = lines e \<and> out e1 = out e"
proof (induction rng e rule: draw.induct)
  case (1 rng e)
  from "1.prems" have pos: "\<not> rng < 1"
    by (subst (asm) draw.simps) (simp split: if_splits)
  from "1.prems" pos obtain bs e2 where rb: "randomBytes (bytesNeeded (nat rng)) e = Inr (bs, e2)"
    by (subst (asm) draw.simps) (auto split: sum.splits)
  show ?case
  proof (cases "assemble bs > maxValid (bytesNeeded (nat rng)) rng")
    case True
    with "1.prems" pos rb have "draw rng e2 = Inr (v, e1)"
      by (subst (asm) draw.simps) simp
    with "1.IH" [OF pos rb refl True] randomBytes_frame [OF rb] show ?thesis by simp
  next
    case False
    with "1.prems" pos rb have "e1 = e2"
      by (subst (asm) draw.simps) simp
    with randomBytes_frame [OF rb] show ?thesis by simp
  qed
qed

lemma draw_fault: "draw rng e \<noteq> Inl AwaitingInput"
proof (induction rng e rule: draw.induct)
  case (1 rng e)
  show ?case
  proof (cases "rng < 1")
    case True
    then show ?thesis by (subst draw.simps) simp
  next
    case False
    show ?thesis
    proof (cases "randomBytes (bytesNeeded (nat rng)) e")
      case (Inl f)
      with False randomBytes_fault [of "bytesNeeded (nat rng)" e] show ?thesis
        by (subst draw.simps) auto
    next
      case (Inr r)
      obtain bs e1 where r: "r = (bs, e1)" by (cases r)
      show ?thesis
      proof (cases "assemble bs > maxValid (bytesNeeded (nat rng)) rng")
        case True
        with "1.IH" [OF False Inr r [symmetric] True] False Inr r show ?thesis
          by (subst draw.simps) simp
      next
        case no: False
        with False Inr r show ?thesis
          by (subst draw.simps) simp
      qed
    qed
  qed
qed

lemma generateUniformRandom_feed:
  "generateUniformRandom mn mx (feed m e) = lift_feed m (generateUniformRandom mn mx e)"
  by (simp add: generateUniformRandom_def Let_def draw_feed lift_feed_def split: sum.splits)

lemma generateUniformRandom_frame:
  "generateUniformRandom mn mx e = Inr (v, e1) \<Longrightarrow> lines e1 = lines e \<and> out e1 = out e"
  by (auto simp: generateUniformRandom_def Let_def split: sum.splits dest: draw_frame)

lemma generateUniformRandom_fault: "generateUniformRandom mn mx e \<noteq> Inl AwaitingInput"
  using draw_fault [of "mx - mn + 1" e]
  by (auto simp: generateUniformRandom_def Let_def split: sum.splits)

lemma adjudications_out: "out e1 = out e \<Longrightarrow> adjudications e1 = adjudications e"
  by (simp add: adjudications_def)

lemma quiet_say [simp]:
  "adjudications (say (Generating p) e) = adjudications e"
  "adjudications (say (Committed mn mx) e) = adjudications e"
  "adjudications (say (NumberMenu mn mx) e) = adjudications e"
  "adjudications (say (InvalidNumber mn mx) e) = adjudications e"
  "adjudications (say (Revealed c key) e) = adjudications e"
  "adjudications (say (FairResult c u r w) e) = adjudications e"
  "adjudications (say FirstMoveIntro e) = adjudications e"
  "adjudications (say (ProbabilityTable t) e) = adjudications e"
  "adjudications (say (ComputerChose fs) e) = adjudications e"
  "adjudications (say (DiceMenu ex) e) = adjudications e"
  "adjudications (say (UserChose fs) e) = adjudications e"
  "adjudications (say InvalidDice e) = adjudications e"
  "adjudications (say (RollIntro p) e) = adjudications e"
  "adjudications (say (RollResult p v) e) = adjudications e"
  by (simp_all add: adjudications_say is_adjudication_def)

lemma randomBytes_quiet:
  "randomBytes n e = Inr (bs, e1) \<Longrightarrow> adjudications e1 = adjudications e"
  by (auto simp: randomBytes_def split: if_splits)

lemma generateSecureKey_quiet:
  "generateSecureKey e = Inr (key, e1) \<Longrightarrow> adjudications e1 = adjudications e"
  by (simp add: generateSecureKey_def randomBytes_quiet)

lemma generateUniformRandom_quiet:
  "generateUniformRandom mn mx e = Inr (v, e1) \<Longrightarrow> adjudications e1 = adjudications e"
  using generateUniformRandom_frame [of mn mx e v e1] by (simp add: adjudications_def)

lemma fairRandomGeneration_parts:
  assumes "fairRandomGeneration mn mx p e = Inr (v, e1)"
  shows "\<exists>key ea c eb u ec.
    generateSecureKey (say (Generating p) e) = Inr (key, ea)
    \<and> generateUniformRandom mn mx ea = Inr (c, eb)
    \<and> getUserNumber mn mx (say (Committed mn mx) eb) = Inr (u, ec)
    \<and> (u = JNull \<longrightarrow> v = JNull \<and> e1 = ec)
    \<and> (u \<noteq> JNull \<longrightarrow> v = fair_result c u mn mx
        \<and> e1 = say (FairResult c u (fair_result c u mn mx) (mx - mn + 1)) (say (Revealed c key) ec))"
  using assms
  by (auto simp: fairRandomGeneration_def Let_def split: sum.splits prod.splits if_splits)

lemma fairRandomGeneration_ext:
  assumes "fairRandomGeneration mn mx p e = Inr (v, e1)"
  shows "fairRandomGeneration mn mx p (feed m e) = Inr (v, feed m e1)
         \<and> adjudications e1 = adjudications e"
proof -
  obtain key ea c eb u ec where
    k: "generateSecureKey (say (Generating p) e) = Inr (key, ea)"
    and g: "generateUniformRandom mn mx ea = Inr (c, eb)"
    and n: "getUserNumber mn mx (say (Committed mn mx) eb) = Inr (u, ec)"
    and null: "u = JNull \<Longrightarrow> v = JNull \<and> e1 = ec"
    and num: "u \<noteq> JNull \<Longrightarrow> v = fair_result c u mn mx
        \<and> e1 = say (FairResult c u (fair_result c u mn mx) (mx - mn + 1)) (say (Revealed c key) ec)"
    using fairRandomGeneration_parts [OF assms] by blast
  have k': "generateSecureKey (say (Generating p) (feed m e)) = Inr (key, feed m ea)"
    using k by (simp add: generateSecureKey_def say_feed randomBytes_feed)
  have g': "generateUniformRandom mn mx (feed m ea) = Inr (c, feed m eb)"
    using g by (simp add: generateUniformRandom_feed)
  have n': "getUserNumber mn mx (say (Committed mn mx) (feed m eb)) = Inr (u, feed m ec)"
    and qn: "adjudications ec = adjudications (say (Committed mn mx) eb)"
    using getUserNumber_ext [OF refl n, of m] by (simp_all add: say_feed)
  have qk: "adjudications ea = adjudications e"
    using generateSecureKey_quiet [OF k] by simp
  have qg: "adjudications eb = adjudications ea"
    by (rule generateUniformRandom_quiet [OF g])
  have q: "adjudications ec = adjudications e"
    using qn qk qg by simp
  show ?thesis
  proof (cases "u = JNull")
    case True
    with null k' g' n' q show ?thesis
      by (simp add: fairRandomGeneration_def)
  next
    case False
    with num k' g' n' q show ?thesis
      by (simp add: fairRandomGeneration_def Let_def say_feed)
  qed
qed

lemma fairRandomGeneration_cancel:
  assumes "fairRandomGeneration mn mx p e = Inl AwaitingInput" and "is_exit (trim x)"
  shows "\<exists>e1. fairRandomGeneration mn mx p (feed (x # rest) e) = Inr (JNull, e1)
          \<and> lines e1 = rest \<and> adjudications e1 = adjudications e"
proof -
  from assms(1) obtain key ea where
    k: "generateSecureKey (say (Generating p) e) = Inr (key, ea)"
    using randomBytes_fault [of 32 "say (Generating p) e"]
    by (cases "generateSecureKey (say (Generating p) e)")
       (auto simp: fairRandomGeneration_def generateSecureKey_def)
  from assms(1) k obtain c eb where
    g: "generateUniformRandom mn mx ea = Inr (c, eb)"
    using generateUniformRandom_fault [of mn mx ea]
    by (cases "generateUniformRandom mn mx ea") (auto simp: fairRandomGeneration_def)
  from assms(1) k g have
    n: "getUserNumber mn mx (say (Committed mn mx) eb) = Inl AwaitingInput"
    by (cases "getUserNumber mn mx (say (Committed mn mx) eb)")
       (auto simp: fairRandomGeneration_def Let_def split: if_splits)
  have k': "generateSecureKey (say (Generating p) (feed (x # rest) e)) = Inr (key, feed (x # rest) ea)"
    using k by (simp add: generateSecureKey_def say_feed randomBytes_feed)
  have g': "generateUniformRandom mn mx (feed (x # rest) ea) = Inr (c, feed (x # rest) eb)"
    using g by (simp add: generateUniformRandom_feed)
  from getUserNumber_cancel [OF refl n assms(2), of rest] obtain e1 where
    n': "getUserNumber mn mx (say (Committed mn mx) (feed (x # rest) eb)) = Inr (JNull, e1)"
    and l: "lines e1 = rest"
    and qn: "adjudications e1 = adjudications (say (Committed mn mx) eb)"
    by (auto simp: say_feed)
  have qk: "adjudications ea = adjudications e"
    using generateSecureKey_quiet [OF k] by simp
  have qg: "adjudications eb = adjudications ea"
    by (rule generateUniformRandom_quiet [OF g])
  have "fairRandomGeneration mn mx p (feed (x # rest) e) = Inr (JNull, e1)"
    using k' g' n' by (simp add: fairRandomGeneration_def)
  with l qn qk qg show ?thesis by simp
qed

lemma first_player_loop_eq:
  "first_player_loop ds e =
     (case fairRandomGeneration 0 1 ''first move determination'' e of
        Inl f \<Rightarrow> Inl f
      | Inr (result, e1) \<Rightarrow>
          if result = JNull then Inr (None, e1) else Inr (Some (result = JNum 0), e1))"
  using fairRandomGeneration_not_question [of 0 1 "''first move determination''" e]
  by (subst first_player_loop.simps) (auto split: sum.splits)

lemma determineFirstPlayer_ext:
  assumes "determineFirstPlayer ds e = Inr (v, e1)"
  shows "determineFirstPlayer ds (feed m e) = Inr (v, feed m e1)
         \<and> adjudications e1 = adjudications e"
proof -
  from assms obtain r where
    f: "fairRandomGeneration 0 1 ''first move determination'' (say FirstMoveIntro e) = Inr (r, e1)"
    and v: "v = (if r = JNull then None else Some (r = JNum 0))"
    by (auto simp: determineFirstPlayer_def first_player_loop_eq split: sum.splits if_splits)
  from fairRandomGeneration_ext [OF f, of m] v show ?thesis
    by (simp add: determineFirstPlayer_def first_player_loop_eq say_feed)
qed

lemma determineFirstPlayer_cancel:
  assumes "determineFirstPlayer ds e = Inl AwaitingInput" and "is_exit (trim x)"
  shows "\<exists>e1. determineFirstPlayer ds (feed (x # rest) e) = Inr (None, e1)
          \<and> lines e1 = rest \<and> adjudications e1 = adjudications e"
proof -
  from assms(1) have
    "fairRandomGeneration 0 1 ''first move determination'' (say FirstMoveIntro e) = Inl AwaitingInput"
    by (auto simp: determineFirstPlayer_def first_player_loop_eq split: sum.splits if_splits)
  from fairRandomGeneration_cancel [OF this assms(2), of rest] show ?thesis
    by (auto simp: determineFirstPlayer_def first_player_loop_eq say_feed)
qed

lemma roll_loop_eq:
  "roll_loop ds d playerName e =
     (case fairRandomGeneration 0 (int (getFaceCount d) - 1) (playerName @ '' dice roll'') e of
        Inl f \<Rightarrow> Inl f
      | Inr (faceIndex, e1) \<Rightarrow>
          if faceIndex = JNull then Inr (JNull, e1)
          else Inr (getValue d faceIndex, say (RollResult playerName (getValue d faceIndex)) e1))"
  using fairRandomGeneration_not_question
          [of 0 "int (getFaceCount d) - 1" "playerName @ '' dice roll''" e]
  by (subst roll_loop.simps) (auto simp: Let_def split: sum.splits)

lemma rollDice_ext:
  assumes "rollDice ds d p e = Inr (v, e1)"
  shows "rollDice ds d p (feed m e) = Inr (v, feed m e1)
         \<and> adjudications e1 = adjudications e"
proof -
  from assms obtain r ea where
    f: "fairRandomGeneration 0 (int (getFaceCount d) - 1) (p @ '' dice roll'') (say (RollIntro p) e)
          = Inr (r, ea)"
    and v: "r = JNull \<longrightarrow> v = JNull \<and> e1 = ea"
           "r \<noteq> JNull \<longrightarrow> v = getValue d r \<and> e1 = say (RollResult p (getValue d r)) ea"
    by (auto simp: rollDice_def roll_loop_eq split: sum.splits if_splits)
  from fairRandomGeneration_ext [OF f, of m] v show ?thesis
    by (cases "r = JNull") (simp_all add: rollDice_def roll_loop_eq say_feed)
qed

lemma rollDice_cancel:
  assumes "rollDice ds d p e = Inl AwaitingInput" and "is_exit (trim x)"
  shows "\<exists>e1. rollDice ds d p (feed (x # rest) e) = Inr (JNull, e1)
          \<and> lines e1 = rest \<and> adjudications e1 = adjudications e"
proof -
  from assms(1) have
    "fairRandomGeneration 0 (int (getFaceCount d) - 1) (p @ '' dice roll'') (say (RollIntro p) e)
       = Inl AwaitingInput"
    by (auto simp: rollDice_def roll_loop_eq split: sum.splits if_splits)
  from fairRandomGeneration_cancel [OF this assms(2), of rest] show ?thesis
    by (auto simp: rollDice_def roll_loop_eq say_feed)
qed

lemma getValue_not_null: "getValue d v \<noteq> JNull"
  by (cases v) simp_all

lemma computerChooseDice_feed:
  "computerChooseDice ds ex random (feed m e) = lift_feed m (computerChooseDice ds ex random e)"
  by (simp add: computerChooseDice_def Let_def say_feed)

lemma computerChooseDice_quiet:
  "computerChooseDice ds ex random e = Inr (v, e1) \<Longrightarrow> adjudications e1 = adjudications e"
  by (auto simp: computerChooseDice_def Let_def split: if_splits)

lemma computerChooseDice_fault: "computerChooseDice ds ex random e \<noteq> Inl AwaitingInput"
  by (simp add: computerChooseDice_def Let_def)

lemma displayProbabilityTable_feed:
  "displayProbabilityTable ds (feed m e) = feed m (displayProbabilityTable ds e)"
  by (simp add: displayProbabilityTable_def say_feed)

lemma userChooseDice_step:
  "userChooseDice ds ex e =
     (case lines e of
        [] \<Rightarrow> Inl AwaitingInput
      | l # ls \<Rightarrow>
          if is_exit (trim l) then Inr (None, (say (DiceMenu ex) e)\<lparr>lines := ls\<rparr>)
          else if trim l = ''?''
          then userChooseDice ds ex (displayProbabilityTable ds ((say (DiceMenu ex) e)\<lparr>lines := ls\<rparr>))
          else (case parseInt (trim l) of
                  None \<Rightarrow> userChooseDice ds ex (say InvalidDice ((say (DiceMenu ex) e)\<lparr>lines := ls\<rparr>))
                | Some diceIndex \<Rightarrow>
                    if diceIndex \<ge> 0 \<and> diceIndex < int (length ds) \<and> diceIndex \<noteq> ex
                    then Inr (Some (nat diceIndex),
                              say (UserChose (faces (ds ! nat diceIndex)))
                                  ((say (DiceMenu ex) e)\<lparr>lines := ls\<rparr>))
                    else userChooseDice ds ex (say InvalidDice ((say (DiceMenu ex) e)\<lparr>lines := ls\<rparr>))))"
  by (subst userChooseDice.simps) (simp add: getUserInput_def split: list.splits)

lemma userChooseDice_ext:
  "lines e = ls \<Longrightarrow> userChooseDice ds ex e = Inr (v, e1) \<Longrightarrow>
     userChooseDice ds ex (feed m e) = Inr (v, feed m e1) \<and> adjudications e1 = adjudications e"
proof (induction ls arbitrary: e)
  case Nil
  then show ?case by (subst (asm) userChooseDice_step) simp
next
  case (Cons l ls)
  let ?e1 = "(say (DiceMenu ex) e)\<lparr>lines := ls\<rparr>"
  have feed1: "(feed m (say (DiceMenu ex) e))\<lparr>lines := ls @ m\<rparr> = feed m ?e1"
    using Cons.prems(1) by (simp add: feed_def say_def)
  have IH1: "userChooseDice ds ex (say InvalidDice ?e1) = Inr (v, e1) \<Longrightarrow>
      userChooseDice ds ex (feed m (say InvalidDice ?e1)) = Inr (v, feed m e1)
      \<and> adjudications e1 = adjudications (say InvalidDice ?e1)"
    by (rule Cons.IH) simp
  have IH2: "userChooseDice ds ex (displayProbabilityTable ds ?e1) = Inr (v, e1) \<Longrightarrow>
      userChooseDice ds ex (feed m (displayProbabilityTable ds ?e1)) = Inr (v, feed m e1)
      \<and> adjudications e1 = adjudications (displayProbabilityTable ds ?e1)"
    by (rule Cons.IH) (simp add: displayProbabilityTable_def)
  have quiet: "adjudications (say InvalidDice ?e1) = adjudications e"
    "adjudications (displayProbabilityTable ds ?e1) = adjudications e"
    "adjudications ?e1 = adjudications e"
    by (simp_all add: displayProbabilityTable_def)
  from Cons.prems(2) show ?case
    apply (subst (asm) userChooseDice_step)
    apply (subst userChooseDice_step)
    using Cons.prems(1) IH1 IH2 quiet
    apply (auto simp: feed1 say_feed displayProbabilityTable_feed split: if_splits option.splits)
    done
qed

lemma userChooseDice_cancel:
  "lines e = ls \<Longrightarrow> userChooseDice ds ex e = Inl AwaitingInput \<Longrightarrow> is_exit (trim x) \<Longrightarrow>
     \<exists>e1. userChooseDice ds ex (feed (x # rest) e) = Inr (None, e1)
          \<and> lines e1 = rest \<and> adjudications e1 = adjudications e"
proof (induction ls arbitrary: e)
  case Nil
  then show ?case
    by (subst userChooseDice_step) simp
next
  case (Cons l ls)
  let ?e1 = "(say (DiceMenu ex) e)\<lparr>lines := ls\<rparr>"
  have feed1: "(feed (x # rest) (say (DiceMenu ex) e))\<lparr>lines := ls @ x # rest\<rparr>
                 = feed (x # rest) ?e1"
    using Cons.prems(1) by (simp add: feed_def say_def)
  have IH1: "userChooseDice ds ex (say InvalidDice ?e1) = Inl AwaitingInput \<Longrightarrow>
      \<exists>e1. userChooseDice ds ex (feed (x # rest) (say InvalidDice ?e1)) = Inr (None, e1)
           \<and> lines e1 = rest \<and> adjudications e1 = adjudications (say InvalidDice ?e1)"
    using Cons.prems(3) by (intro Cons.IH) simp_all
  have IH2: "userChooseDice ds ex (displayProbabilityTable ds ?e1) = Inl AwaitingInput \<Longrightarrow>
      \<exists>e1. userChooseDice ds ex (feed (x # rest) (displayProbabilityTable ds ?e1)) = Inr (None, e1)
           \<and> lines e1 = rest \<and> adjudications e1 = adjudications (displayProbabilityTable ds ?e1)"
    using Cons.prems(3) by (intro Cons.IH) (simp_all add: displayProbabilityTable_def)
  have quiet: "adjudications (say InvalidDice ?e1) = adjudications e"
    "adjudications (displayProbabilityTable ds ?e1) = adjudications e"
    by (simp_all add: displayProbabilityTable_def)
  from Cons.prems(2) show ?case
    apply (subst (asm) userChooseDice_step)
    apply (subst userChooseDice_step)
    using Cons.prems(1) IH1 IH2 quiet
    apply (auto simp: feed1 say_feed displayProbabilityTable_feed split: if_splits option.splits)
    done
qed

lemma select_dice_ext:
  assumes "select_dice ds cf r e = Inr (v, e1)"
  shows "select_dice ds cf r (feed m e) = Inr (v, feed m e1) \<and> adjudications e1 = adjudications e"
proof (cases cf)
  case True
  from assms True obtain i ea u where
    c: "computerChooseDice ds (- 1) r e = Inr (i, ea)"
    and u: "userChooseDice ds (int i) ea = Inr (u, e1)"
    and v: "v = (case u of None \<Rightarrow> None | Some j \<Rightarrow> Some (i, j))"
    by (auto simp: select_dice_def split: sum.splits prod.splits option.splits)
  from c have c': "computerChooseDice ds (- 1) r (feed m e) = Inr (i, feed m ea)"
    by (simp add: computerChooseDice_feed)
  from userChooseDice_ext [OF refl u, of m] computerChooseDice_quiet [OF c] c' v True
  show ?thesis
    by (auto simp: select_dice_def split: option.splits)
next
  case False
  from assms False obtain u ea where
    u: "userChooseDice ds (- 1) e = Inr (u, ea)"
    by (auto simp: select_dice_def split: sum.splits prod.splits option.splits)
  note u' = userChooseDice_ext [OF refl u, of m]
  show ?thesis
  proof (cases u)
    case None
    with assms False u u' show ?thesis
      by (auto simp: select_dice_def)
  next
    case (Some i)
    with assms False u obtain j where
      c: "computerChooseDice ds (int i) r ea = Inr (j, e1)" and v: "v = Some (i, j)"
      by (auto simp: select_dice_def split: sum.splits prod.splits)
    from c have "computerChooseDice ds (int i) r (feed m ea) = Inr (j, feed m e1)"
      by (simp add: computerChooseDice_feed)
    with computerChooseDice_quiet [OF c] u' v Some False show ?thesis
      by (auto simp: select_dice_def)
  qed
qed

lemma select_dice_cancel:
  assumes "select_dice ds cf r e = Inl AwaitingInput" and "is_exit (trim x)"
  shows "\<exists>e1. select_dice ds cf r (feed (x # rest) e) = Inr (None, e1)
          \<and> lines e1 = rest \<and> adjudications e1 = adjudications e"
proof (cases cf)
  case True
  from assms(1) True obtain i ea where
    c: "computerChooseDice ds (- 1) r e = Inr (i, ea)"
    using computerChooseDice_fault [of ds "- 1" r e]
    by (cases "computerChooseDice ds (- 1) r e") (auto simp: select_dice_def)
  from assms(1) True c have u: "userChooseDice ds (int i) ea = Inl AwaitingInput"
    by (auto simp: select_dice_def split: sum.splits prod.splits option.splits)
  from c have c': "computerChooseDice ds (- 1) r (feed (x # rest) e) = Inr (i, feed (x # rest) ea)"
    by (simp add: computerChooseDice_feed)
  from userChooseDice_cancel [OF refl u assms(2), of rest] computerChooseDice_quiet [OF c] c' True
  show ?thesis
    by (auto simp: select_dice_def)
next
  case False
  show ?thesis
  proof (cases "userChooseDice ds (- 1) e")
    case (Inl f)
    with assms(1) False have u: "userChooseDice ds (- 1) e = Inl AwaitingInput"
      by (simp add: select_dice_def)
    from userChooseDice_cancel [OF refl u assms(2), of rest] False show ?thesis
      by (auto simp: select_dice_def)
  next
    case (Inr p)
    obtain u ea where p: "p = (u, ea)" by (cases p)
    from assms(1) False Inr p obtain i where "u = Some i"
      by (cases u) (auto simp: select_dice_def)
    with assms(1) False Inr p computerChooseDice_fault [of ds "int i" r ea] show ?thesis
      by (auto simp: select_dice_def split: sum.splits)
  qed
qed

lemma roll_and_adjudicate_cancel:
  assumes "roll_and_adjudicate ds cf i j e = Inl AwaitingInput" and "is_exit (trim x)"
  shows "\<exists>e1. roll_and_adjudicate ds cf i j (feed (x # rest) e) = Inr e1
          \<and> lines e1 = rest \<and> adjudications e1 = adjudications e"
proof -
  let ?p1 = "if cf then ''my'' else ''your''"
  let ?p2 = "if cf then ''your'' else ''my''"
  from assms(1) have i: "i < length ds"
    by (auto simp: roll_and_adjudicate_def split: if_splits)
  show ?thesis
  proof (cases "rollDice ds (ds ! i) ?p1 e")
    case (Inl f)
    with assms(1) i have r: "rollDice ds (ds ! i) ?p1 e = Inl AwaitingInput"
      by (simp add: roll_and_adjudicate_def)
    from rollDice_cancel [OF r assms(2), of rest] i show ?thesis
      by (auto simp: roll_and_adjudicate_def)
  next
    case (Inr p)
    obtain v ea where p: "p = (v, ea)" by (cases p)
    note r1 = Inr [unfolded p]
    from assms(1) i r1 have nn: "v \<noteq> JNull"
      by (auto simp: roll_and_adjudicate_def)
    from assms(1) i r1 nn have j: "j < length ds"
      by (auto simp: roll_and_adjudicate_def split: if_splits)
    from assms(1) i j r1 nn have r2: "rollDice ds (ds ! j) ?p2 ea = Inl AwaitingInput"
      by (auto simp: roll_and_adjudicate_def split: sum.splits if_splits)
    from rollDice_ext [OF r1, of "x # rest"]
    have r1': "rollDice ds (ds ! i) ?p1 (feed (x # rest) e) = Inr (v, feed (x # rest) ea)"
      and q1: "adjudications ea = adjudications e"
      by simp_all
    from rollDice_cancel [OF r2 assms(2), of rest] obtain e1 where
      "rollDice ds (ds ! j) ?p2 (feed (x # rest) ea) = Inr (JNull, e1)"
      "lines e1 = rest" "adjudications e1 = adjudications ea"
      by blast
    with r1' q1 i j nn show ?thesis
      by (simp add: roll_and_adjudicate_def)
  qed
qed

lemma playGame_cancel:
  assumes "playGame ds r e = Inl AwaitingInput" and "is_exit (trim x)"
  shows "\<exists>e1. playGame ds r (feed (x # rest) e) = Inr e1
          \<and> lines e1 = rest \<and> adjudications e1 = adjudications e"
proof (cases "determineFirstPlayer ds e")
  case (Inl f)
  with assms(1) have d: "determineFirstPlayer ds e = Inl AwaitingInput"
    by (simp add: playGame_def)
  from determineFirstPlayer_cancel [OF d assms(2), of rest] show ?thesis
    by (auto simp: playGame_def)
next
  case (Inr p)
  obtain v ea where p: "p = (v, ea)" by (cases p)
  note d = Inr [unfolded p]
  from assms(1) d obtain cf where v: "v = Some cf"
    by (cases v) (auto simp: playGame_def)
  from determineFirstPlayer_ext [OF d, of "x # rest"]
  have d': "determineFirstPlayer ds (feed (x # rest) e) = Inr (v, feed (x # rest) ea)"
    and qd: "adjudications ea = adjudications e"
    by simp_all
  show ?thesis
  proof (cases "select_dice ds cf r ea")
    case (Inl f)
    with assms(1) d v have s: "select_dice ds cf r ea = Inl AwaitingInput"
      by (simp add: playGame_def)
    from select_dice_cancel [OF s assms(2), of rest] d' qd v show ?thesis
      by (auto simp: playGame_def)
  next
    case (Inr q)
    obtain w eb where q: "q = (w, eb)" by (cases q)
    note s = Inr [unfolded q]
    from assms(1) d v s obtain i j where w: "w = Some (i, j)"
      by (cases w) (auto simp: playGame_def)
    from assms(1) d v s w have ra: "roll_and_adjudicate ds cf i j eb = Inl AwaitingInput"
      by (simp add: playGame_def)
    from select_dice_ext [OF s, of "x # rest"]
    have s': "select_dice ds cf r (feed (x # rest) ea) = Inr (w, feed (x # rest) eb)"
      and qs: "adjudications eb = adjudications ea"
      by simp_all
    from roll_and_adjudicate_cancel [OF ra assms(2), of rest] obtain e1 where
      "roll_and_adjudicate ds cf i j (feed (x # rest) eb) = Inr e1"
      "lines e1 = rest" "adjudications e1 = adjudications eb"
      by blast
    with d' v s' w qd qs show ?thesis
      by (simp add: playGame_def)
  qed
qed

text \<open>
  Claim C9. Whenever the program waits at a prompt, whichever it is and whatever
  was typed before, and the user then enters \<open>X\<close> or \<open>x\<close>, \<open>playGame\<close> returns
  right after reading that line, no win, lose or tie message has been added to the
  output, and the process ends with exit code 0.
\<close>

theorem cancellation_exits:
  assumes "main args random e = Pending" and "is_exit (trim x)"
  shows "main args random (e\<lparr>lines := lines e @ x # rest\<rparr>) = Exit 0
       \<and> (\<exists>diceConfigs e'. validateArguments args = Inr diceConfigs
             \<and> playGame (DiceGame diceConfigs) random (e\<lparr>lines := lines e @ x # rest\<rparr>) = Inr e'
             \<and> lines e' = rest
             \<and> filter is_adjudication (out e') = filter is_adjudication (out e))"
proof -
  from assms(1) obtain diceConfigs where
    args: "\<not> length args < 3" "validateArguments args = Inr diceConfigs"
    and pending: "playGame (DiceGame diceConfigs) random e = Inl AwaitingInput"
    by (auto simp: main_def split: if_splits sum.splits)
  from playGame_cancel [OF pending assms(2), of rest] obtain e' where
    "playGame (DiceGame diceConfigs) random (e\<lparr>lines := lines e @ x # rest\<rparr>) = Inr e'"
    "lines e' = rest" "filter is_adjudication (out e') = filter is_adjudication (out e)"
    by (auto simp: feed_def adjudications_def)
  with args show ?thesis
    by (simp add: main_def)
qed

lemma pending_at_second_roll:
  "main [''2,2,4,4,9,9'', ''1,1,6,6,8,8'', ''3,3,5,5,7,7''] (1 / 2)
     \<lparr>lines = [''1'', ''0'', ''2''], entropy = replicate 99 0, out = []\<rparr> = Pending"
  by (simp add: main_def validateArguments_def parseDiceConfig_def DiceGame_three
        playGame_def determineFirstPlayer_def first_player_loop_eq
        select_dice_def userChooseDice_step computerChooseDice_def
        roll_and_adjudicate_def rollDice_def roll_loop_eq
        fairRandomGeneration_def generateSecureKey_def randomBytes_def say_def
        generateUniformRandom_def draw.simps bytesNeeded.simps assemble_def maxValid_def
        getUserNumber_step trim_def is_space_def is_exit_def
        fair_result_def js_rem_def shl8_def getFaceCount_def mkDice_def
        parseInt_def digit_of_def digits_value_def Let_def enumerate_eq_zip upt_rec)

theorem cancellation_exits_witness:
  "main [''2,2,4,4,9,9'', ''1,1,6,6,8,8'', ''3,3,5,5,7,7''] (1 / 2)
     \<lparr>lines = [''1'', ''0'', ''2''], entropy = replicate 99 0, out = []\<rparr> = Pending
   \<and> is_exit (trim '' x '')
   \<and> main [''2,2,4,4,9,9'', ''1,1,6,6,8,8'', ''3,3,5,5,7,7''] (1 / 2)
        \<lparr>lines = [''1'', ''0'', ''2'', '' x '', ''5''], entropy = replicate 99 0, out = []\<rparr> = Exit 0"
proof -
  have x: "is_exit (trim '' x '')"
    by (simp add: trim_def is_space_def is_exit_def)
  from cancellation_exits [OF pending_at_second_roll x, of "[''5'']"] pending_at_second_roll x
  show ?thesis by simp
qed

end
